theory Spec2Isabelle
  imports Complex_Main "HOL-Library.Multiset"
begin

section \<open>Batch PDF compression through Ghostscript: a model of main.py\<close>

text \<open>
  The program walks an input directory, runs the external tool \<^verbatim>\<open>gswin64c\<close> on every
  file whose name ends in \<^verbatim>\<open>.pdf\<close>, and adds the outcomes up in the class \<^verbatim>\<open>Stats\<close>.
  Everything the program asks of the operating system (directory listing, creating
  directories, file sizes, child processes) is a field of the record \<open>os\<close> below, a
  function of an explicit world state \<open>'w\<close> that returns the new world. The functions
  of \<^verbatim>\<open>main.py\<close> are written once, for every such interface; a concrete interface over
  a directory tree with a simulated tool follows them.
\<close>

subsection \<open>Strings\<close>

text \<open>
  A Python \<^verbatim>\<open>str\<close> is modelled by \<open>string\<close>, the characters being the bytes of its
  UTF-8 encoding. \<^verbatim>\<open>str.lower\<close> is modelled on the letters A to Z; every other byte is
  kept. (No character outside A to Z has a lower-case form that ends in one of the
  characters of \<^verbatim>\<open>.pdf\<close>, so the test of \<^verbatim>\<open>find_all_pdfs\<close> is not affected.)
\<close>

definition lower_chr :: "char \<Rightarrow> char" where
  "lower_chr c =
     (case map_of (zip ''ABCDEFGHIJKLMNOPQRSTUVWXYZ'' ''abcdefghijklmnopqrstuvwxyz'') c of
        None \<Rightarrow> c
      | Some l \<Rightarrow> l)"

definition lower :: "string \<Rightarrow> string" where
  "lower s = map lower_chr s"

text \<open>\<^verbatim>\<open>s.endswith(suf)\<close>: the last \<open>length suf\<close> characters of \<open>s\<close> are \<open>suf\<close>.\<close>

definition endswith :: "string \<Rightarrow> string \<Rightarrow> bool" where
  "endswith s suf = (length suf \<le> length s \<and> drop (length s - length suf) s = suf)"

text \<open>
  \<^verbatim>\<open>s.strip(chars)\<close> removes the characters of \<open>chars\<close> from both ends (used with the
  ASCII characters \<^verbatim>\<open>"\<close> and space).
\<close>

definition strip_chars :: "char set \<Rightarrow> string \<Rightarrow> string" where
  "strip_chars cs s = rev (dropWhile (\<lambda>c. c \<in> cs) (rev (dropWhile (\<lambda>c. c \<in> cs) s)))"

text \<open>
  \<^verbatim>\<open>s.strip()\<close> removes white space from both ends: the characters for which
  \<^verbatim>\<open>str.isspace\<close> holds. These are U+0009 to U+000D, U+001C to U+0020, U+0085, U+00A0,
  U+1680, U+2000 to U+200A, U+2028, U+2029, U+202F, U+205F and U+3000, here with their
  UTF-8 encodings.
\<close>

definition ws_chars :: "string list" where
  "ws_chars =
     [[CHR 0x09], [CHR 0x0A], [CHR 0x0B], [CHR 0x0C], [CHR 0x0D],
      [CHR 0x1C], [CHR 0x1D], [CHR 0x1E], [CHR 0x1F], [CHR 0x20],
      [CHR 0xC2, CHR 0x85], [CHR 0xC2, CHR 0xA0],
      [CHR 0xE1, CHR 0x9A, CHR 0x80],
      [CHR 0xE2, CHR 0x80, CHR 0x80], [CHR 0xE2, CHR 0x80, CHR 0x81],
      [CHR 0xE2, CHR 0x80, CHR 0x82], [CHR 0xE2, CHR 0x80, CHR 0x83],
      [CHR 0xE2, CHR 0x80, CHR 0x84], [CHR 0xE2, CHR 0x80, CHR 0x85],
      [CHR 0xE2, CHR 0x80, CHR 0x86], [CHR 0xE2, CHR 0x80, CHR 0x87],
      [CHR 0xE2, CHR 0x80, CHR 0x88], [CHR 0xE2, CHR 0x80, CHR 0x89],
      [CHR 0xE2, CHR 0x80, CHR 0x8A],
      [CHR 0xE2, CHR 0x80, CHR 0xA8], [CHR 0xE2, CHR 0x80, CHR 0xA9],
      [CHR 0xE2, CHR 0x80, CHR 0xAF],
      [CHR 0xE2, CHR 0x81, CHR 0x9F],
      [CHR 0xE3, CHR 0x80, CHR 0x80]]"

text \<open>
  Removing characters of a list \<open>toks\<close> of encodings from the front of a string, as long
  as one of them is a prefix.
\<close>

function strip_front :: "string list \<Rightarrow> string \<Rightarrow> string" where
  "strip_front toks s =
     (case find (\<lambda>t. t \<noteq> [] \<and> take (length t) s = t) toks of
        None \<Rightarrow> s
      | Some t \<Rightarrow> strip_front toks (drop (length t) s))"
  by pat_completeness auto
termination
proof (relation "measure (\<lambda>(toks, s). length s)")
  show "wf (measure (\<lambda>(toks, s). length s))" by simp
next
  fix toks :: "string list" and s t :: string
  assume "find (\<lambda>t. t \<noteq> [] \<and> take (length t) s = t) toks = Some t"
  then have "t \<noteq> []" and "take (length t) s = t"
    by (auto simp: find_Some_iff)
  then have "s \<noteq> []" by auto
  with \<open>t \<noteq> []\<close> show "((toks, drop (length t) s), (toks, s)) \<in> measure (\<lambda>(toks, s). length s)"
    by simp
qed

declare strip_front.simps [simp del]

definition lstrip :: "string \<Rightarrow> string" where
  "lstrip s = strip_front ws_chars s"

definition rstrip :: "string \<Rightarrow> string" where
  "rstrip s = rev (strip_front (map rev ws_chars) (rev s))"

definition strip :: "string \<Rightarrow> string" where
  "strip s = rstrip (lstrip s)"

subsection \<open>Exceptions, paths and the operating system\<close>

text \<open>
  The exceptions the program can meet. All but \<open>KeyboardInterrupt\<close> are subclasses of
  \<^verbatim>\<open>Exception\<close>, which is what \<^verbatim>\<open>except Exception\<close> catches.
\<close>

datatype exn =
    FileNotFoundError
  | FileExistsError
  | NotADirectoryError
  | PermissionError
  | CalledProcessError int string
  | ValueError
  | EOFError
  | ZeroDivisionError
  | KeyboardInterrupt

fun is_Exception :: "exn \<Rightarrow> bool" where
  "is_Exception KeyboardInterrupt = False"
| "is_Exception _ = True"

text \<open>A \<^verbatim>\<open>pathlib.Path\<close> is the list of its components.\<close>

type_synonym path = "string list"

text \<open>A finished child process: return code, standard output, standard error.\<close>

type_synonym completed = "int \<times> string \<times> string"

text \<open>
  The operating system, over a world \<open>'w\<close>:
  \<^item> \<open>walk_op\<close> is \<^verbatim>\<open>os.walk\<close>: the triples (directory, subdirectory names, file names);
  \<^item> \<open>mkdir_op\<close> is \<^verbatim>\<open>Path.mkdir(parents=True, exist_ok=True)\<close>;
  \<^item> \<open>getsize_op\<close> is \<^verbatim>\<open>os.path.getsize\<close>;
  \<^item> \<open>run_op\<close> starts a child process from a command line and waits for it: \<open>Inl\<close> when
    the process cannot be started, otherwise what it returned;
  \<^item> \<open>isdir_op\<close> is \<^verbatim>\<open>os.path.isdir\<close>;
  \<^item> \<open>str_op\<close> is \<^verbatim>\<open>str\<close> of a path and \<open>path_op\<close> is \<^verbatim>\<open>Path\<close> of a string.
\<close>

record 'w os =
  walk_op :: "path \<Rightarrow> 'w \<Rightarrow> (path \<times> string list \<times> string list) list \<times> 'w"
  mkdir_op :: "path \<Rightarrow> 'w \<Rightarrow> (exn + unit) \<times> 'w"
  getsize_op :: "path \<Rightarrow> 'w \<Rightarrow> (exn + nat) \<times> 'w"
  run_op :: "string list \<Rightarrow> 'w \<Rightarrow> (exn + completed) \<times> 'w"
  isdir_op :: "string \<Rightarrow> 'w \<Rightarrow> bool \<times> 'w"
  str_op :: "path \<Rightarrow> string"
  path_op :: "string \<Rightarrow> path"

text \<open>
  \<^verbatim>\<open>subprocess.run(cmd, check=True)\<close>: a return code other than zero raises
  \<^verbatim>\<open>CalledProcessError\<close>.
\<close>

definition subprocess_run :: "'w os \<Rightarrow> string list \<Rightarrow> 'w \<Rightarrow> (exn + completed) \<times> 'w" where
  "subprocess_run os cmd w =
     (case run_op os cmd w of
        (Inl e, w') \<Rightarrow> (Inl e, w')
      | (Inr (rc, out, err), w') \<Rightarrow>
          if rc \<noteq> 0 then (Inl (CalledProcessError rc err), w')
          else (Inr (rc, out, err), w'))"

subsection \<open>The quality prompt\<close>

text \<open>
  \<^verbatim>\<open>prompt_quality\<close>, as a function of the line that \<^verbatim>\<open>input\<close> returned: the line is
  stripped and looked up in the dictionary, with \<^verbatim>\<open>/ebook\<close> for a missing key.
\<close>

definition quality_table :: "string \<rightharpoonup> string" where
  "quality_table =
     [''1'' \<mapsto> ''/screen'',
      ''2'' \<mapsto> ''/ebook'',
      ''3'' \<mapsto> ''/printer'',
      ''4'' \<mapsto> ''/prepress'',
      ''5'' \<mapsto> ''/default'']"

definition prompt_quality :: "string \<Rightarrow> string" where
  "prompt_quality line =
     (let choice = strip line
      in case quality_table choice of None \<Rightarrow> ''/ebook'' | Some q \<Rightarrow> q)"

subsection \<open>The adapter: one call of the external tool\<close>

text \<open>The tuple that \<^verbatim>\<open>compress_pdf\<close> returns: success, original size, compressed size, path.\<close>

type_synonym result = "bool \<times> int \<times> int \<times> string"

definition gs_command :: "'w os \<Rightarrow> path \<Rightarrow> path \<Rightarrow> string \<Rightarrow> string list" where
  "gs_command os input_path output_path quality =
     [''gswin64c'',
      ''-sDEVICE=pdfwrite'',
      ''-dCompatibilityLevel=1.4'',
      ''-dPDFSETTINGS='' @ quality,
      ''-dNOPAUSE'',
      ''-dQUIET'',
      ''-dBATCH'',
      ''-sOutputFile='' @ str_op os output_path,
      str_op os input_path]"

text \<open>
  The handler of the \<^verbatim>\<open>try\<close> block: an \<^verbatim>\<open>Exception\<close> becomes the failed tuple, anything
  else goes on to the caller.
\<close>

definition except_Exception :: "'w os \<Rightarrow> path \<Rightarrow> exn \<Rightarrow> exn + result" where
  "except_Exception os input_path e =
     (if is_Exception e then Inr (False, 0, 0, str_op os input_path) else Inl e)"

text \<open>
  \<^verbatim>\<open>compress_pdf\<close>. The parent directory is made before the \<^verbatim>\<open>try\<close> block, so an
  exception of \<^verbatim>\<open>mkdir\<close> leaves the function; the two sizes and the child process are
  inside the block.
\<close>

definition compress_pdf ::
  "'w os \<Rightarrow> path \<Rightarrow> path \<Rightarrow> string \<Rightarrow> 'w \<Rightarrow> (exn + result) \<times> 'w" where
  "compress_pdf os input_path output_path quality w0 =
     (case mkdir_op os (butlast output_path) w0 of
        (Inl e, w1) \<Rightarrow> (Inl e, w1)
      | (Inr _, w1) \<Rightarrow>
         (case getsize_op os input_path w1 of
            (Inl e, w2) \<Rightarrow> (except_Exception os input_path e, w2)
          | (Inr orig, w2) \<Rightarrow>
             (case subprocess_run os (gs_command os input_path output_path quality) w2 of
                (Inl e, w3) \<Rightarrow> (except_Exception os input_path e, w3)
              | (Inr _, w3) \<Rightarrow>
                 (case getsize_op os output_path w3 of
                    (Inl e, w4) \<Rightarrow> (except_Exception os input_path e, w4)
                  | (Inr compr, w4) \<Rightarrow>
                      (Inr (True, int orig, int compr, str_op os input_path), w4)))))"

subsection \<open>The scanner and the planner\<close>

text \<open>
  The comprehension of \<^verbatim>\<open>find_all_pdfs\<close> over the triples of \<^verbatim>\<open>os.walk\<close>:
  \<^verbatim>\<open>os.path.join(root, file)\<close> for every file name whose lower-case form ends in
  \<^verbatim>\<open>.pdf\<close>.
\<close>

definition pdfs_of_walk :: "(path \<times> string list \<times> string list) list \<Rightarrow> path list" where
  "pdfs_of_walk triples =
     concat (map (\<lambda>(root, _, files).
                    map (\<lambda>file. root @ [file])
                        (filter (\<lambda>file. endswith (lower file) ''.pdf'') files))
                 triples)"

definition find_all_pdfs :: "'w os \<Rightarrow> path \<Rightarrow> 'w \<Rightarrow> path list \<times> 'w" where
  "find_all_pdfs os root_dir w =
     (case walk_op os root_dir w of (triples, w') \<Rightarrow> (pdfs_of_walk triples, w'))"

text \<open>
  \<^verbatim>\<open>input_file.relative_to(input_dir)\<close> raises \<^verbatim>\<open>ValueError\<close> when \<open>input_dir\<close> is not a
  prefix of the path.
\<close>

definition relative_to :: "path \<Rightarrow> path \<Rightarrow> exn + path" where
  "relative_to p base =
     (if take (length base) p = base then Inr (drop (length base) p) else Inl ValueError)"

text \<open>The loop that builds \<^verbatim>\<open>tasks\<close>: it stops at the first exception.\<close>

fun plan_tasks :: "path \<Rightarrow> path \<Rightarrow> path list \<Rightarrow> exn + (path \<times> path) list" where
  "plan_tasks input_dir output_dir [] = Inr []"
| "plan_tasks input_dir output_dir (input_file # rest) =
     (case relative_to input_file input_dir of
        Inl e \<Rightarrow> Inl e
      | Inr relative_path \<Rightarrow>
         (case plan_tasks input_dir output_dir rest of
            Inl e \<Rightarrow> Inl e
          | Inr tasks \<Rightarrow> Inr ((input_file, output_dir @ relative_path) # tasks)))"

subsection \<open>The statistics and the executor\<close>

text \<open>The class \<^verbatim>\<open>Stats\<close> with the values its attributes have when the module is loaded.\<close>

record Stats =
  total_n :: int
  success :: int
  failed :: int
  errors :: "string list"
  original_size :: int
  compressed_size :: int

definition Stats_init :: Stats where
  "Stats_init =
     \<lparr>total_n = 0, success = 0, failed = 0, errors = [],
      original_size = 0, compressed_size = 0\<rparr>"

text \<open>
  The pool runs every submitted task, whatever happens to the others. A task is taken
  as one step on the world; the tasks are taken in the order in which they complete.
\<close>

fun run_tasks ::
  "'w os \<Rightarrow> string \<Rightarrow> (path \<times> path) list \<Rightarrow> 'w \<Rightarrow> (exn + result) list \<times> 'w" where
  "run_tasks os quality [] w = ([], w)"
| "run_tasks os quality ((inp, out) # rest) w =
     (case compress_pdf os inp out quality w of
        (r, w1) \<Rightarrow> (case run_tasks os quality rest w1 of (rs, w2) \<Rightarrow> (r # rs, w2)))"

text \<open>
  The loop over \<^verbatim>\<open>as_completed(futures)\<close>. \<^verbatim>\<open>future.result()\<close> gives the tuple of a task
  or raises the exception the task ended with, which ends the loop.
\<close>

fun aggregate :: "Stats \<Rightarrow> (exn + result) list \<Rightarrow> exn option \<times> Stats" where
  "aggregate st [] = (None, st)"
| "aggregate st (Inl e # rest) = (Some e, st)"
| "aggregate st (Inr (ok, orig, compr, p) # rest) =
     (if ok
      then aggregate (st\<lparr>success := success st + 1,
                         original_size := original_size st + orig,
                         compressed_size := compressed_size st + compr\<rparr>) rest
      else aggregate (st\<lparr>failed := failed st + 1, errors := errors st @ [p]\<rparr>) rest)"

subsection \<open>The report\<close>

text \<open>
  What the program prints, one constructor per \<^verbatim>\<open>print\<close>, with the numbers before they
  are formatted (sizes in bytes; the program shows them in megabytes).
\<close>

datatype line =
    Banner
  | GsFound string
  | GsNotFound
  | GsError string
  | DirNotFound string
  | QualityMenu
  | Found int
  | Rule
  | SummaryTitle
  | Processed int
  | Succeeded int
  | WithErrors int
  | SizeBefore int
  | SizeAfter int
  | Saved int rat
  | ErrorsTitle
  | ErrorItem string
  | Duration
  | Goodbye

text \<open>
  Python's \<^verbatim>\<open>/\<close> on integers raises \<^verbatim>\<open>ZeroDivisionError\<close> for a zero divisor; the
  quotient is taken exactly, as a rational (the program computes it in floating point).
\<close>

definition truediv :: "int \<Rightarrow> int \<Rightarrow> exn + rat" where
  "truediv a b = (if b = 0 then Inl ZeroDivisionError else Inr (of_int a / of_int b))"

text \<open>
  The summary at the end of \<^verbatim>\<open>process_all\<close>: the three size lines when \<open>total > 0\<close>,
  with the ratio \<^verbatim>\<open>(saved / Stats.original_size) * 100 if Stats.original_size else 0\<close>,
  and the list of failed paths when \<open>failed > 0\<close>.
\<close>

definition savings_lines :: "Stats \<Rightarrow> exn + line list" where
  "savings_lines st =
     (if total_n st > 0 then
        (let saved = original_size st - compressed_size st
         in case (if original_size st \<noteq> 0
                  then (case truediv saved (original_size st) of
                          Inl e \<Rightarrow> Inl e
                        | Inr q \<Rightarrow> Inr (q * 100))
                  else Inr 0) of
              Inl e \<Rightarrow> Inl e
            | Inr ratio \<Rightarrow>
                Inr [SizeBefore (original_size st), SizeAfter (compressed_size st),
                     Saved saved ratio])
      else Inr [])"

definition error_lines :: "Stats \<Rightarrow> line list" where
  "error_lines st =
     (if failed st > 0 then ErrorsTitle # map ErrorItem (errors st) else [])"

definition summary :: "Stats \<Rightarrow> exn + line list" where
  "summary st =
     (case savings_lines st of
        Inl e \<Rightarrow> Inl e
      | Inr sl \<Rightarrow>
          Inr ([Rule, SummaryTitle, Processed (total_n st), Succeeded (success st),
                WithErrors (failed st)] @ sl @ error_lines st @ [Rule]))"

subsection \<open>The batch\<close>

text \<open>
  \<^verbatim>\<open>process_all\<close>, from the \<^verbatim>\<open>Stats\<close> and the world it finds. \<open>sched\<close> is the order in
  which the pool completes the submitted tasks. The value is the exception that left the
  function (if any), the lines printed, the \<^verbatim>\<open>Stats\<close> and the world afterwards. The
  \<^verbatim>\<open>with\<close> block waits for every task, also when the loop is left by an exception.
\<close>

definition process_all ::
  "'w os \<Rightarrow> ((path \<times> path) list \<Rightarrow> (path \<times> path) list) \<Rightarrow> path \<Rightarrow> path \<Rightarrow> string \<Rightarrow>
   Stats \<Rightarrow> 'w \<Rightarrow> exn option \<times> line list \<times> Stats \<times> 'w" where
  "process_all os sched input_dir output_dir quality st w0 =
     (case find_all_pdfs os input_dir w0 of
        (pdf_files, w1) \<Rightarrow>
          (let st1 = st\<lparr>total_n := int (length pdf_files)\<rparr>;
               out1 = [Found (total_n st1)]
           in case plan_tasks input_dir output_dir pdf_files of
                Inl e \<Rightarrow> (Some e, out1, st1, w1)
              | Inr tasks \<Rightarrow>
                 (case run_tasks os quality (sched tasks) w1 of
                    (rs, w2) \<Rightarrow>
                      (case aggregate st1 rs of
                         (Some e, st2) \<Rightarrow> (Some e, out1, st2, w2)
                       | (None, st2) \<Rightarrow>
                          (case summary st2 of
                             Inl e \<Rightarrow> (Some e, out1, st2, w2)
                           | Inr ls \<Rightarrow> (None, out1 @ ls, st2, w2))))))"

subsection \<open>The start of the program\<close>

text \<open>How a part of the program ends: it returns, it calls \<^verbatim>\<open>exit\<close>, or it raises.\<close>

datatype ending = Returned | Exit int | Raised exn

text \<open>
  \<^verbatim>\<open>check_ghostscript\<close>: the probe \<^verbatim>\<open>gswin64c --version\<close>; \<^verbatim>\<open>FileNotFoundError\<close> and
  \<^verbatim>\<open>CalledProcessError\<close> end the program with \<^verbatim>\<open>exit(1)\<close>.
\<close>

definition check_ghostscript :: "'w os \<Rightarrow> 'w \<Rightarrow> ending \<times> line list \<times> 'w" where
  "check_ghostscript os w =
     (case subprocess_run os [''gswin64c'', ''--version''] w of
        (Inr (rc, out, err), w') \<Rightarrow> (Returned, [GsFound (strip out)], w')
      | (Inl FileNotFoundError, w') \<Rightarrow> (Exit 1, [GsNotFound], w')
      | (Inl (CalledProcessError rc err), w') \<Rightarrow> (Exit 1, [GsError (strip err)], w')
      | (Inl e, w') \<Rightarrow> (Raised e, [], w'))"

text \<open>
  \<^verbatim>\<open>prompt_directory\<close>, reading from the lines of standard input: \<^verbatim>\<open>input\<close> raises
  \<^verbatim>\<open>EOFError\<close> at the end of the input. The value is the path or the exception, the
  lines printed, the input left and the world.
\<close>

fun prompt_directory ::
  "'w os \<Rightarrow> string list \<Rightarrow> 'w \<Rightarrow> (exn + path) \<times> line list \<times> string list \<times> 'w" where
  "prompt_directory os [] w = (Inl EOFError, [], [], w)"
| "prompt_directory os (l # rest) w =
     (let p = strip (strip_chars {CHR 0x22, CHR '' ''} l)
      in case isdir_op os p w of
           (True, w') \<Rightarrow> (Inr (path_op os p), [], rest, w')
         | (False, w') \<Rightarrow>
            (case prompt_directory os rest w' of
               (r, out, rest', w'') \<Rightarrow> (r, DirNotFound p # out, rest', w'')))"

text \<open>
  The main program, from the freshly loaded module (\<open>Stats_init\<close>). The value is how the
  program ends, the lines printed, the input left, the \<^verbatim>\<open>Stats\<close> and the world.
\<close>

definition main ::
  "'w os \<Rightarrow> ((path \<times> path) list \<Rightarrow> (path \<times> path) list) \<Rightarrow> string list \<Rightarrow> 'w \<Rightarrow>
   ending \<times> line list \<times> string list \<times> Stats \<times> 'w" where
  "main os sched stdin w0 =
     (case check_ghostscript os w0 of
        (Exit n, out0, w1) \<Rightarrow> (Exit n, Banner # out0, stdin, Stats_init, w1)
      | (Raised e, out0, w1) \<Rightarrow> (Raised e, Banner # out0, stdin, Stats_init, w1)
      | (Returned, out0, w1) \<Rightarrow>
         (case prompt_directory os stdin w1 of
            (Inl e, out1, in1, w2) \<Rightarrow>
              (Raised e, Banner # out0 @ out1, in1, Stats_init, w2)
          | (Inr input_root, out1, in1, w2) \<Rightarrow>
             (case prompt_directory os in1 w2 of
                (Inl e, out2, in2, w3) \<Rightarrow>
                  (Raised e, Banner # out0 @ out1 @ out2, in2, Stats_init, w3)
              | (Inr output_root, out2, in2, w3) \<Rightarrow>
                 (case in2 of
                    [] \<Rightarrow>
                      (Raised EOFError, Banner # out0 @ out1 @ out2 @ [QualityMenu], [],
                       Stats_init, w3)
                  | l # in3 \<Rightarrow>
                     (case process_all os sched input_root output_root (prompt_quality l)
                             Stats_init w3 of
                        (Some e, out3, st, w4) \<Rightarrow>
                          (Raised e, Banner # out0 @ out1 @ out2 @ [QualityMenu] @ out3,
                           in3, st, w4)
                      | (None, out3, st, w4) \<Rightarrow>
                          (Returned,
                           Banner # out0 @ out1 @ out2 @ [QualityMenu] @ out3
                             @ [Duration, Goodbye],
                           in3, st, w4))))))"

subsection \<open>A directory tree, and an operating system over it\<close>

text \<open>
  The entries of a directory, by what \<^verbatim>\<open>os.walk\<close> and \<^verbatim>\<open>os.path\<close> can tell apart:
  \<^item> \<open>File n\<close>: a regular file of \<open>n\<close> bytes (or a symbolic link to one);
  \<^item> \<open>Special\<close>: a FIFO, a socket or a device: not a directory and not a regular file;
  \<^item> \<open>Dangling\<close>: a symbolic link whose target does not exist;
  \<^item> \<open>Dir es\<close>: a directory that can be listed and searched, with its entries;
  \<^item> \<open>Link es\<close>: a symbolic link to a directory, with the entries of the target;
  \<^item> \<open>Locked es\<close>: a directory that can be neither listed nor searched.
\<close>

datatype node =
    File nat
  | Special
  | Dangling
  | Dir "(string \<times> node) list"
  | Link "(string \<times> node) list"
  | Locked "(string \<times> node) list"

text \<open>\<^verbatim>\<open>entry.is_dir()\<close> and \<^verbatim>\<open>os.path.isdir\<close>, which follow symbolic links.\<close>

fun is_dir :: "node \<Rightarrow> bool" where
  "is_dir (Dir es) = True"
| "is_dir (Link es) = True"
| "is_dir (Locked es) = True"
| "is_dir _ = False"

text \<open>\<^verbatim>\<open>os.path.islink\<close>.\<close>

fun is_link :: "node \<Rightarrow> bool" where
  "is_link (Link es) = True"
| "is_link Dangling = True"
| "is_link _ = False"

text \<open>
  \<^verbatim>\<open>os.walk\<close> below its argument, top down, with the defaults \<^verbatim>\<open>onerror=None\<close> and
  \<^verbatim>\<open>followlinks=False\<close>: a directory gives its triple (the names for which \<^verbatim>\<open>is_dir\<close>
  holds, and all the other names), followed by the walks of its subdirectories that are
  not symbolic links; a directory that cannot be listed gives nothing, and so does
  anything that is not a directory.
\<close>

fun walk_in :: "path \<Rightarrow> node \<Rightarrow> (path \<times> string list \<times> string list) list" where
  "walk_in dirpath (Dir es) =
     (dirpath, map fst (filter (\<lambda>e. is_dir (snd e)) es),
           map fst (filter (\<lambda>e. \<not> is_dir (snd e)) es))
     # concat (map (\<lambda>e. walk_in (dirpath @ [fst e]) (snd e))
                   (filter (\<lambda>e. is_dir (snd e) \<and> \<not> is_link (snd e)) es))"
| "walk_in dirpath _ = []"

text \<open>
  The argument of \<^verbatim>\<open>os.walk\<close> itself is listed also when it is a symbolic link to a
  directory: only the links met below it are not followed.
\<close>

fun opened :: "node \<Rightarrow> node" where
  "opened (Link es) = Dir es"
| "opened t = t"

definition walk :: "path \<Rightarrow> node \<Rightarrow> (path \<times> string list \<times> string list) list" where
  "walk dirpath t = walk_in dirpath (opened t)"

text \<open>Resolving a path from a directory: links are followed, locked directories stop it.\<close>

fun lookup :: "node \<Rightarrow> path \<Rightarrow> node option" where
  "lookup t [] = Some t"
| "lookup (Dir es) (c # p) = (case map_of es c of None \<Rightarrow> None | Some t \<Rightarrow> lookup t p)"
| "lookup (Link es) (c # p) = (case map_of es c of None \<Rightarrow> None | Some t \<Rightarrow> lookup t p)"
| "lookup _ (c # p) = None"

text \<open>Replace the entry of a name, or add it at the end.\<close>

fun put :: "string \<Rightarrow> node \<Rightarrow> (string \<times> node) list \<Rightarrow> (string \<times> node) list" where
  "put c t [] = [(c, t)]"
| "put c t ((c', t') # es) = (if c' = c then (c, t) # es else (c', t') # put c t es)"

text \<open>
  Making a directory with its parents, an existing directory being accepted; anything
  else in the way is an error.
\<close>

fun mkdirs :: "path \<Rightarrow> node \<Rightarrow> exn + node" where
  "mkdirs [] t = (if is_dir t then Inr t else Inl FileExistsError)"
| "mkdirs (c # p) (Dir es) =
     (case mkdirs p (case map_of es c of None \<Rightarrow> Dir [] | Some t \<Rightarrow> t) of
        Inl e \<Rightarrow> Inl e
      | Inr d \<Rightarrow> Inr (Dir (put c d es)))"
| "mkdirs (c # p) (Link es) =
     (case mkdirs p (case map_of es c of None \<Rightarrow> Dir [] | Some t \<Rightarrow> t) of
        Inl e \<Rightarrow> Inl e
      | Inr d \<Rightarrow> Inr (Link (put c d es)))"
| "mkdirs (c # p) (Locked es) = Inl PermissionError"
| "mkdirs (c # p) Dangling = Inl FileNotFoundError"
| "mkdirs (c # p) _ = Inl NotADirectoryError"

text \<open>Writing a regular file of a given size into an existing directory.\<close>

fun write_file :: "path \<Rightarrow> nat \<Rightarrow> node \<Rightarrow> node option" where
  "write_file [] n t = None"
| "write_file [c] n (Dir es) =
     (if (case map_of es c of None \<Rightarrow> False | Some t \<Rightarrow> is_dir t) then None
      else Some (Dir (put c (File n) es)))"
| "write_file (c # p) n (Dir es) =
     (case map_of es c of
        None \<Rightarrow> None
      | Some t \<Rightarrow>
         (case write_file p n t of None \<Rightarrow> None | Some d \<Rightarrow> Some (Dir (put c d es))))"
| "write_file [c] n (Link es) =
     (if (case map_of es c of None \<Rightarrow> False | Some t \<Rightarrow> is_dir t) then None
      else Some (Link (put c (File n) es)))"
| "write_file (c # p) n (Link es) =
     (case map_of es c of
        None \<Rightarrow> None
      | Some t \<Rightarrow>
         (case write_file p n t of None \<Rightarrow> None | Some d \<Rightarrow> Some (Link (put c d es))))"
| "write_file (c # p) n t = None"

text \<open>
  \<^verbatim>\<open>os.path.getsize\<close>: the size of a regular file; an error for a path that does not
  resolve; for a directory or a special file the size the system reports, taken as 0.
\<close>

definition getsize :: "path \<Rightarrow> node \<Rightarrow> exn + nat" where
  "getsize p t =
     (case lookup t p of
        None \<Rightarrow> Inl FileNotFoundError
      | Some (File n) \<Rightarrow> Inr n
      | Some Dangling \<Rightarrow> Inl FileNotFoundError
      | Some _ \<Rightarrow> Inr 0)"

text \<open>Paths as strings, with \<^verbatim>\<open>/\<close> between the components.\<close>

fun join_path :: "path \<Rightarrow> string" where
  "join_path [] = ''.''"
| "join_path [c] = c"
| "join_path (c # p) = c @ ''/'' @ join_path p"

fun splits :: "string \<Rightarrow> string list" where
  "splits [] = [[]]"
| "splits (x # xs) =
     (if x = CHR ''/'' then [] # splits xs
      else (case splits xs of [] \<Rightarrow> [[x]] | c # cs \<Rightarrow> (x # c) # cs))"

definition split_path :: "string \<Rightarrow> path" where
  "split_path s = filter (\<lambda>c. c \<noteq> [] \<and> c \<noteq> ''.'') (splits s)"

text \<open>
  The world of the simulation: the tree and the list of the calls made so far. The
  external tool is a parameter: a function of the command line and the tree.
\<close>

datatype call = Walk path | Mkdir path | Getsize path | Run "string list" | Isdir string

type_synonym world = "node \<times> call list"

definition sim_os :: "(string list \<Rightarrow> node \<Rightarrow> (exn + completed) \<times> node) \<Rightarrow> world os" where
  "sim_os tool =
     \<lparr>walk_op = (\<lambda>p (t, lg).
        ((case lookup t p of None \<Rightarrow> [] | Some d \<Rightarrow> walk p d), (t, lg @ [Walk p]))),
      mkdir_op = (\<lambda>p (t, lg).
        (case mkdirs p t of
           Inl e \<Rightarrow> (Inl e, (t, lg @ [Mkdir p]))
         | Inr t' \<Rightarrow> (Inr (), (t', lg @ [Mkdir p])))),
      getsize_op = (\<lambda>p (t, lg). (getsize p t, (t, lg @ [Getsize p]))),
      run_op = (\<lambda>cmd (t, lg). (case tool cmd t of (r, t') \<Rightarrow> (r, (t', lg @ [Run cmd])))),
      isdir_op = (\<lambda>s (t, lg).
        ((s \<noteq> [] \<and> (case lookup t (split_path s) of None \<Rightarrow> False | Some d \<Rightarrow> is_dir d)),
         (t, lg @ [Isdir s]))),
      str_op = join_path,
      path_op = split_path\<rparr>"

text \<open>
  A simulated tool: it answers the probe, writes half the size for an input whose name
  ends in \<^verbatim>\<open>1.pdf\<close>, and fails (return code 1) for every other input.
\<close>

definition halving_tool :: "string list \<Rightarrow> node \<Rightarrow> (exn + completed) \<times> node" where
  "halving_tool cmd t =
     (if cmd = [''gswin64c'', ''--version''] then (Inr (0, ''10.03.1'', ''''), t)
      else if length cmd = 9 \<and> endswith (cmd ! 8) ''1.pdf'' then
        (case getsize (split_path (cmd ! 8)) t of
           Inl e \<Rightarrow> (Inr (1, '''', ''cannot read''), t)
         | Inr n \<Rightarrow>
            (case write_file (split_path (drop 13 (cmd ! 7))) (n div 2) t of
               None \<Rightarrow> (Inr (1, '''', ''cannot write''), t)
             | Some t' \<Rightarrow> (Inr (0, '''', ''''), t')))
      else (Inr (1, '''', ''error''), t))"

text \<open>A machine without the tool: no process can be started.\<close>

definition no_tool :: "string list \<Rightarrow> node \<Rightarrow> (exn + completed) \<times> node" where
  "no_tool cmd t = (Inl FileNotFoundError, t)"

text \<open>
  The tree of the scenario: \<^verbatim>\<open>in/a/1.pdf\<close> of 1000 bytes, \<^verbatim>\<open>in/b/2.pdf\<close> of 2000 bytes
  and an empty directory \<^verbatim>\<open>out\<close>.
\<close>

definition scenario_fs :: node where
  "scenario_fs =
     Dir [(''in'', Dir [(''a'', Dir [(''1.pdf'', File 1000)]),
                        (''b'', Dir [(''2.pdf'', File 2000)])]),
          (''out'', Dir [])]"

subsection \<open>Notions used to state the properties\<close>

text \<open>
  A string made of the encodings of a list \<open>toks\<close>, one after the other; \<open>blank\<close> is a
  string made of white space characters only (the empty string is one).
\<close>

inductive made_of :: "string list \<Rightarrow> string \<Rightarrow> bool" for toks where
  none: "made_of toks []"
| more: "t \<in> set toks \<Longrightarrow> made_of toks s \<Longrightarrow> made_of toks (t @ s)"

definition blank :: "string \<Rightarrow> bool" where
  "blank s = made_of ws_chars s"

text \<open>No encoding of the list is empty or the beginning of another one.\<close>

definition prefix_free :: "string list \<Rightarrow> bool" where
  "prefix_free toks =
     list_all (\<lambda>a. a \<noteq> [] \<and> list_all (\<lambda>b. take (length a) b = a \<longrightarrow> a = b) toks) toks"

text \<open>
  What a run adds to the statistics it finds: \<open>prev\<close> is the \<^verbatim>\<open>Stats\<close> before a run and
  \<open>d\<close> what the same run leaves in a fresh \<^verbatim>\<open>Stats\<close>.
\<close>

definition accumulated :: "Stats \<Rightarrow> Stats \<Rightarrow> Stats" where
  "accumulated prev d =
     d\<lparr>success := success prev + success d,
       failed := failed prev + failed d,
       errors := errors prev @ errors d,
       original_size := original_size prev + original_size d,
       compressed_size := compressed_size prev + compressed_size d\<rparr>"

text \<open>The entries of a directory of any kind.\<close>

fun entries :: "node \<Rightarrow> (string \<times> node) list" where
  "entries (Dir es) = es"
| "entries (Link es) = es"
| "entries (Locked es) = es"
| "entries _ = []"

text \<open>
  \<open>regular_at t p\<close>: the names of \<open>p\<close>, followed from \<open>t\<close> through directories of any kind,
  end at a regular file. This is "a regular file at any depth beneath the root".
\<close>

inductive regular_at :: "node \<Rightarrow> path \<Rightarrow> bool" where
  here: "(name, File n) \<in> set (entries t) \<Longrightarrow> regular_at t [name]"
| below: "(name, d) \<in> set (entries t) \<Longrightarrow> regular_at d p \<Longrightarrow> regular_at t (name # p)"

text \<open>
  \<open>found_in t p\<close>: the names of \<open>p\<close>, followed from the directory \<open>t\<close> through directories
  that can be listed and are not symbolic links, end at an entry that is not a directory:
  a regular file, a special file or a dangling link.
\<close>

inductive found_in :: "node \<Rightarrow> path \<Rightarrow> bool" where
  here: "(name, f) \<in> set es \<Longrightarrow> \<not> is_dir f \<Longrightarrow> found_in (Dir es) [name]"
| below: "(name, Dir ds) \<in> set es \<Longrightarrow> found_in (Dir ds) p \<Longrightarrow> found_in (Dir es) (name # p)"

text \<open>A tree that has only regular files and directories that can be listed.\<close>

fun plain :: "node \<Rightarrow> bool" where
  "plain (File n) = True"
| "plain (Dir es) = (\<forall>e \<in> set es. plain (snd e))"
| "plain _ = False"

text \<open>
  A name that ends in \<^verbatim>\<open>.pdf\<close> whatever the case of its letters: its last four
  characters are a dot, p or P, d or D, f or F.
\<close>

definition pdf_name :: "string \<Rightarrow> bool" where
  "pdf_name name =
     (case rev name of
        f # d # p # dot # stem \<Rightarrow>
          dot = CHR ''.'' \<and> p \<in> {CHR ''p'', CHR ''P''} \<and> d \<in> {CHR ''d'', CHR ''D''}
          \<and> f \<in> {CHR ''f'', CHR ''F''}
      | _ \<Rightarrow> False)"

text \<open>
  An input directory with a regular file, a FIFO and a dangling link named like PDF
  files, a symbolic link to a directory that holds a PDF file, and a directory that
  cannot be listed.
\<close>

definition special_fs :: node where
  "special_fs =
     Dir [(''in'', Dir [(''a.pdf'', File 10),
                        (''pipe.pdf'', Special),
                        (''gone.pdf'', Dangling),
                        (''linkdir'', Link [(''deep.pdf'', File 5)]),
                        (''locked'', Locked [(''b.pdf'', File 3)])]),
          (''out'', Dir [])]"

text \<open>
  The tree of the scenario with a file named \<^verbatim>\<open>a\<close> in the output directory, where the
  directory \<^verbatim>\<open>out/a\<close> would have to be made.
\<close>

definition blocked_fs :: node where
  "blocked_fs =
     Dir [(''in'', Dir [(''a'', Dir [(''1.pdf'', File 1000)]),
                        (''b'', Dir [(''2.pdf'', File 2000)])]),
          (''out'', Dir [(''a'', File 7)])]"

text \<open>A tree with an empty input directory.\<close>

definition empty_fs :: node where
  "empty_fs = Dir [(''in'', Dir []), (''out'', Dir [])]"

text \<open>The batch of the scenario, run once from the fresh \<^verbatim>\<open>Stats\<close>.\<close>

definition first_run :: "exn option \<times> line list \<times> Stats \<times> world" where
  "first_run =
     process_all (sim_os halving_tool) (\<lambda>ts. ts) [''in''] [''out''] ''/ebook'' Stats_init
       (scenario_fs, [])"

section \<open>Properties\<close>

subsection \<open>Stripping white space\<close>

lemma made_of_append: "made_of toks a \<Longrightarrow> made_of toks b \<Longrightarrow> made_of toks (a @ b)"
  by (induction rule: made_of.induct) (auto intro: made_of.intros)

lemma made_of_one: "t \<in> set toks \<Longrightarrow> made_of toks t"
  using made_of.more [of t toks "[]"] by (simp add: made_of.none)

lemma made_of_rev: "made_of toks s \<Longrightarrow> made_of (map rev toks) (rev s)"
proof (induction rule: made_of.induct)
  case none
  show ?case by (simp add: made_of.none)
next
  case (more t s)
  have "made_of (map rev toks) (rev t)" using more.hyps(1) by (intro made_of_one) simp
  with more.IH show ?case by (simp add: made_of_append)
qed

lemma made_of_rev': "made_of (map rev toks) s \<Longrightarrow> made_of toks (rev s)"
  using made_of_rev [of "map rev toks" s] by (simp add: comp_def)

text \<open>
  What \<open>strip_front\<close> removes is made of the given encodings.
\<close>

lemma strip_front_split: "\<exists>pre. made_of toks pre \<and> s = pre @ strip_front toks s"
proof (induction toks s rule: strip_front.induct)
  case (1 toks s)
  show ?case
  proof (cases "find (\<lambda>t. t \<noteq> [] \<and> take (length t) s = t) toks")
    case None
    then have "strip_front toks s = s" by (simp add: strip_front.simps)
    then show ?thesis using made_of.none [of toks] by auto
  next
    case (Some t)
    then have t: "t \<in> set toks" "take (length t) s = t"
      by (auto simp: find_Some_iff)
    from "1.IH" [OF Some] obtain pre where
      pre: "made_of toks pre" "drop (length t) s = pre @ strip_front toks (drop (length t) s)"
      by blast
    have "strip_front toks s = strip_front toks (drop (length t) s)"
      using Some by (subst strip_front.simps) simp
    moreover have "s = t @ drop (length t) s"
      using t(2) by (metis append_take_drop_id)
    ultimately have "s = (t @ pre) @ strip_front toks s" using pre(2) by simp
    moreover have "made_of toks (t @ pre)" using t(1) pre(1) by (rule made_of.more)
    ultimately show ?thesis by blast
  qed
qed

lemma prefix_free_same:
  assumes "prefix_free toks" "a \<in> set toks" "b \<in> set toks" "take (length a) (b @ r) = a"
  shows "a = b"
proof -
  from assms(1-3) have ab: "take (length a) b = a \<Longrightarrow> a = b"
    and ba: "take (length b) a = b \<Longrightarrow> b = a"
    by (auto simp: prefix_free_def list_all_iff)
  show ?thesis
  proof (cases "length a \<le> length b")
    case True
    with assms(4) have "take (length a) b = a" by simp
    then show ?thesis by (rule ab)
  next
    case False
    then have "length b \<le> length a" by simp
    moreover from assms(4) have "take (length b) (take (length a) (b @ r)) = take (length b) a"
      by simp
    ultimately have "take (length b) a = b" by (simp add: min_def)
    then show ?thesis using ba by simp
  qed
qed

lemma strip_front_token:
  assumes "prefix_free toks" "t \<in> set toks"
  shows "strip_front toks (t @ s) = strip_front toks s"
proof -
  have ne: "t \<noteq> []" using assms by (auto simp: prefix_free_def list_all_iff)
  then have "\<exists>x \<in> set toks. x \<noteq> [] \<and> take (length x) (t @ s) = x"
    using assms(2) by auto
  then obtain t' where f: "find (\<lambda>x. x \<noteq> [] \<and> take (length x) (t @ s) = x) toks = Some t'"
    by (cases "find (\<lambda>x. x \<noteq> [] \<and> take (length x) (t @ s) = x) toks")
       (auto simp: find_None_iff)
  then have "t' \<in> set toks" "take (length t') (t @ s) = t'"
    by (auto simp: find_Some_iff)
  then have "t' = t" using prefix_free_same [OF assms(1) _ assms(2)] by blast
  with f show ?thesis by (subst strip_front.simps) simp
qed

lemma strip_front_made_of:
  assumes "prefix_free toks" "made_of toks pre"
  shows "strip_front toks (pre @ s) = strip_front toks s"
  using assms(2) by (induction rule: made_of.induct) (simp_all add: strip_front_token [OF assms(1)])

lemma strip_front_stop:
  assumes "\<forall>t \<in> set toks. t \<noteq> [] \<longrightarrow> hd t \<noteq> c"
  shows "strip_front toks (c # s) = c # s"
proof -
  have "find (\<lambda>t. t \<noteq> [] \<and> take (length t) (c # s) = t) toks = None"
  proof -
    have "\<not> (t \<noteq> [] \<and> take (length t) (c # s) = t)" if "t \<in> set toks" for t
    proof (cases t)
      case Nil
      then show ?thesis by simp
    next
      case (Cons a u)
      with assms that have "a \<noteq> c" by auto
      with Cons show ?thesis by auto
    qed
    then show ?thesis by (auto simp: find_None_iff)
  qed
  then show ?thesis by (subst strip_front.simps) simp
qed

lemma ws_prefix_free: "prefix_free ws_chars"
  by code_simp

lemma ws_suffix_free: "prefix_free (map rev ws_chars)"
  by code_simp

text \<open>
  Every line is its stripped form between two blank strings, and a character that no
  white space begins or ends with stays when blank strings around it are stripped.
\<close>

lemma strip_split: "\<exists>pre post. blank pre \<and> blank post \<and> line = pre @ strip line @ post"
proof -
  obtain pre where pre: "made_of ws_chars pre" "line = pre @ lstrip line"
    using strip_front_split [of ws_chars line] by (auto simp: lstrip_def)
  obtain q where q: "made_of (map rev ws_chars) q"
      "rev (lstrip line) = q @ strip_front (map rev ws_chars) (rev (lstrip line))"
    using strip_front_split [of "map rev ws_chars" "rev (lstrip line)"] by blast
  from q(2) have "lstrip line = strip line @ rev q"
    by (simp add: strip_def rstrip_def rev_swap)
  with pre(2) have "line = pre @ strip line @ rev q" by simp
  moreover have "blank (rev q)" using q(1) by (simp add: blank_def made_of_rev')
  moreover have "blank pre" using pre(1) by (simp add: blank_def)
  ultimately show ?thesis by blast
qed

lemma strip_around:
  assumes "blank pre" "blank post"
    and fr: "\<forall>t \<in> set ws_chars. t \<noteq> [] \<longrightarrow> hd t \<noteq> c"
    and bk: "\<forall>t \<in> set (map rev ws_chars). t \<noteq> [] \<longrightarrow> hd t \<noteq> c"
  shows "strip (pre @ [c] @ post) = [c]"
proof -
  have "lstrip (pre @ [c] @ post) = strip_front ws_chars (c # post)"
    using strip_front_made_of [OF ws_prefix_free, of pre "c # post"] assms(1)
    by (simp add: lstrip_def blank_def)
  also have "\<dots> = c # post" using fr by (rule strip_front_stop)
  finally have l: "lstrip (pre @ [c] @ post) = c # post" .
  have "made_of (map rev ws_chars) (rev post)"
    using assms(2) by (simp add: blank_def made_of_rev)
  then have "strip_front (map rev ws_chars) (rev post @ [c]) = strip_front (map rev ws_chars) [c]"
    by (rule strip_front_made_of [OF ws_suffix_free])
  also have "\<dots> = [c]" using bk by (rule strip_front_stop)
  finally have "rstrip (c # post) = [c]" by (simp add: rstrip_def)
  with l show ?thesis by (simp add: strip_def)
qed

lemma digit_front:
  "\<forall>t \<in> set ws_chars. t \<noteq> [] \<longrightarrow> hd t \<notin> {CHR ''1'', CHR ''2'', CHR ''3'', CHR ''4'', CHR ''5''}"
  by code_simp

lemma digit_back:
  "\<forall>t \<in> set (map rev ws_chars). t \<noteq> [] \<longrightarrow>
     hd t \<notin> {CHR ''1'', CHR ''2'', CHR ''3'', CHR ''4'', CHR ''5''}"
  by code_simp

lemma strip_choice:
  assumes "blank pre" "blank post" "c \<in> {CHR ''1'', CHR ''2'', CHR ''3'', CHR ''4'', CHR ''5''}"
  shows "strip (pre @ [c] @ post) = [c]"
proof (rule strip_around [OF assms(1,2)])
  show "\<forall>t \<in> set ws_chars. t \<noteq> [] \<longrightarrow> hd t \<noteq> c"
    using digit_front assms(3) by blast
  show "\<forall>t \<in> set (map rev ws_chars). t \<noteq> [] \<longrightarrow> hd t \<noteq> c"
    using digit_back assms(3) by blast
qed

lemma strip_empty: "strip '''' = ''''"
  by code_simp

lemma blank_Nil: "blank []"
  by (simp add: blank_def made_of.none)

subsection \<open>The quality prompt\<close>

lemma quality_table_simps:
  "quality_table ''1'' = Some ''/screen''"
  "quality_table ''2'' = Some ''/ebook''"
  "quality_table ''3'' = Some ''/printer''"
  "quality_table ''4'' = Some ''/prepress''"
  "quality_table ''5'' = Some ''/default''"
  by (simp_all add: quality_table_def)

lemma quality_table_other:
  "c \<notin> {''1'', ''2'', ''3'', ''4'', ''5''} \<Longrightarrow> quality_table c = None"
  by (simp add: quality_table_def)

text \<open>
  Claim C8, as the code has it. \<^verbatim>\<open>prompt_quality\<close> strips the white space at both ends of
  the line before it looks the choice up. So the lines 1 to 5, alone or between white
  space of any kind, give the profiles screen, ebook, printer, prepress and default; the
  empty line gives ebook; and every line that is not one of the five choices between
  blank strings gives ebook.
\<close>

theorem prompt_quality_choices:
  "prompt_quality ''1'' = ''/screen'' \<and>
   prompt_quality ''2'' = ''/ebook'' \<and>
   prompt_quality ''3'' = ''/printer'' \<and>
   prompt_quality ''4'' = ''/prepress'' \<and>
   prompt_quality ''5'' = ''/default'' \<and>
   prompt_quality '''' = ''/ebook'' \<and>
   (\<forall>pre post. blank pre \<and> blank post \<longrightarrow>
      prompt_quality (pre @ ''1'' @ post) = ''/screen'' \<and>
      prompt_quality (pre @ ''2'' @ post) = ''/ebook'' \<and>
      prompt_quality (pre @ ''3'' @ post) = ''/printer'' \<and>
      prompt_quality (pre @ ''4'' @ post) = ''/prepress'' \<and>
      prompt_quality (pre @ ''5'' @ post) = ''/default'') \<and>
   (\<forall>line.
      (\<forall>pre post. blank pre \<and> blank post \<longrightarrow>
         line \<notin> {pre @ ''1'' @ post, pre @ ''2'' @ post, pre @ ''3'' @ post,
                  pre @ ''4'' @ post, pre @ ''5'' @ post}) \<longrightarrow>
      prompt_quality line = ''/ebook'')"
proof -
  have around: "prompt_quality (pre @ ''1'' @ post) = ''/screen'' \<and>
      prompt_quality (pre @ ''2'' @ post) = ''/ebook'' \<and>
      prompt_quality (pre @ ''3'' @ post) = ''/printer'' \<and>
      prompt_quality (pre @ ''4'' @ post) = ''/prepress'' \<and>
      prompt_quality (pre @ ''5'' @ post) = ''/default''"
    if "blank pre" "blank post" for pre post
    using strip_choice [OF that, of "CHR ''1''"] strip_choice [OF that, of "CHR ''2''"]
      strip_choice [OF that, of "CHR ''3''"] strip_choice [OF that, of "CHR ''4''"]
      strip_choice [OF that, of "CHR ''5''"]
    by (simp add: prompt_quality_def quality_table_simps)
  have other: "prompt_quality line = ''/ebook''"
    if h: "\<forall>pre post. blank pre \<and> blank post \<longrightarrow>
         line \<notin> {pre @ ''1'' @ post, pre @ ''2'' @ post, pre @ ''3'' @ post,
                  pre @ ''4'' @ post, pre @ ''5'' @ post}" for line
  proof -
    obtain pre post where s: "blank pre" "blank post" "line = pre @ strip line @ post"
      using strip_split by blast
    with h have "strip line \<notin> {''1'', ''2'', ''3'', ''4'', ''5''}" by auto
    then show ?thesis
      by (simp add: prompt_quality_def quality_table_other)
  qed
  from around [OF blank_Nil blank_Nil] have
    "prompt_quality ''1'' = ''/screen'' \<and> prompt_quality ''2'' = ''/ebook'' \<and>
     prompt_quality ''3'' = ''/printer'' \<and> prompt_quality ''4'' = ''/prepress'' \<and>
     prompt_quality ''5'' = ''/default''"
    by simp
  moreover have "prompt_quality '''' = ''/ebook''"
    by (simp add: prompt_quality_def strip_empty quality_table_other)
  ultimately show ?thesis using around other by blast
qed

text \<open>
  A choice after a no-break space and before a tab, and a line that is no choice.
\<close>

theorem prompt_quality_choices_witness:
  "prompt_quality ([CHR 0xC2, CHR 0xA0] @ ''1'' @ [CHR 0x09]) = ''/screen'' \<and>
   prompt_quality ''7'' = ''/ebook''"
proof -
  have b1: "blank [CHR 0xC2, CHR 0xA0]"
    unfolding blank_def by (rule made_of_one) (simp add: ws_chars_def)
  have b2: "blank [CHR 0x09]"
    unfolding blank_def by (rule made_of_one) (simp add: ws_chars_def)
  have no: "\<forall>pre post. blank pre \<and> blank post \<longrightarrow>
         ''7'' \<notin> {pre @ ''1'' @ post, pre @ ''2'' @ post, pre @ ''3'' @ post,
                   pre @ ''4'' @ post, pre @ ''5'' @ post}"
    by (auto simp: Cons_eq_append_conv)
  from prompt_quality_choices b1 b2 no show ?thesis by blast
qed

text \<open>
  Claim C8 as it is worded fails: the line of a space and the digit 1 is none of the
  inputs 1 to 5, and it gives the profile screen, not ebook.
\<close>

theorem prompt_quality_padded_choice:
  "'' 1'' \<notin> {''1'', ''2'', ''3'', ''4'', ''5''} \<and> prompt_quality '' 1'' = ''/screen'' \<and>
   ''/screen'' \<noteq> ''/ebook''"
  by code_simp

subsection \<open>The adapter\<close>

text \<open>
  Claim C5. When the parent directory could be made, the input size could be read, the
  tool returned code zero and the output size can be read afterwards, \<^verbatim>\<open>compress_pdf\<close>
  returns success with the input size read in the world before the tool ran and the output
  size read in the world the tool left.
\<close>

theorem compress_pdf_success:
  assumes "mkdir_op os (butlast output_path) w0 = (Inr u, w1)"
    and "getsize_op os input_path w1 = (Inr n, w2)"
    and "run_op os (gs_command os input_path output_path quality) w2 = (Inr (0, out, err), w3)"
    and "getsize_op os output_path w3 = (Inr m, w4)"
  shows "compress_pdf os input_path output_path quality w0 =
           (Inr (True, int n, int m, str_op os input_path), w4)"
  using assms by (simp add: compress_pdf_def subprocess_run_def)

text \<open>
  The hypotheses hold for \<^verbatim>\<open>in/a/1.pdf\<close> of the scenario: 1000 bytes before, 500 after.
\<close>

theorem compress_pdf_success_witness:
  "fst (compress_pdf (sim_os halving_tool) [''in'', ''a'', ''1.pdf''] [''out'', ''a'', ''1.pdf'']
          ''/ebook'' (scenario_fs, [])) = Inr (True, 1000, 500, ''in/a/1.pdf'')"
proof -
  let ?os = "sim_os halving_tool"
  let ?i = "[''in'', ''a'', ''1.pdf'']"
  let ?o = "[''out'', ''a'', ''1.pdf'']"
  let ?w0 = "(scenario_fs, []) :: world"
  let ?w1 = "snd (mkdir_op ?os (butlast ?o) ?w0)"
  let ?w2 = "snd (getsize_op ?os ?i ?w1)"
  let ?w3 = "snd (run_op ?os (gs_command ?os ?i ?o ''/ebook'') ?w2)"
  let ?w4 = "snd (getsize_op ?os ?o ?w3)"
  have "fst (mkdir_op ?os (butlast ?o) ?w0) = Inr ()" by code_simp
  then have 1: "mkdir_op ?os (butlast ?o) ?w0 = (Inr (), ?w1)"
    by (simp add: prod_eq_iff)
  have "fst (getsize_op ?os ?i ?w1) = Inr 1000" by code_simp
  then have 2: "getsize_op ?os ?i ?w1 = (Inr 1000, ?w2)"
    by (simp add: prod_eq_iff)
  have "fst (run_op ?os (gs_command ?os ?i ?o ''/ebook'') ?w2) = Inr (0, '''', '''')" by code_simp
  then have 3: "run_op ?os (gs_command ?os ?i ?o ''/ebook'') ?w2 = (Inr (0, '''', ''''), ?w3)"
    by (simp add: prod_eq_iff)
  have "fst (getsize_op ?os ?o ?w3) = Inr 500" by code_simp
  then have 4: "getsize_op ?os ?o ?w3 = (Inr 500, ?w4)"
    by (simp add: prod_eq_iff)
  have "str_op ?os ?i = ''in/a/1.pdf''" by code_simp
  with compress_pdf_success [OF 1 2 3 4] show ?thesis by simp
qed

text \<open>
  Once the directory is made, an \<^verbatim>\<open>Exception\<close> inside the \<^verbatim>\<open>try\<close> block (a size that cannot
  be read, a tool that cannot be started or returns another code than zero) gives the
  failed tuple with the input path.
\<close>

lemma compress_pdf_caught:
  assumes "mkdir_op os (butlast output_path) w0 = (Inr u, w1)"
    and "compress_pdf os input_path output_path quality w0 = (r, w')"
  shows "(\<exists>e. r = Inl e \<and> \<not> is_Exception e) \<or>
         (\<exists>n m. r = Inr (True, int n, int m, str_op os input_path)) \<or>
         r = Inr (False, 0, 0, str_op os input_path)"
  using assms
  by (auto simp: compress_pdf_def except_Exception_def split: prod.splits sum.splits if_splits)

text \<open>
  Claim C1. The claim: on any failure of the invocation the adapter returns the failed
  tuple, and no exception of a task leaves the pool and ends the batch. The first half
  holds inside the \<^verbatim>\<open>try\<close> block. But \<^verbatim>\<open>output_path.parent.mkdir\<close> stands before the
  block: when \<^verbatim>\<open>out/a\<close> is a file, \<^verbatim>\<open>compress_pdf\<close> raises \<^verbatim>\<open>FileExistsError\<close>,
  \<^verbatim>\<open>future.result()\<close> raises it again in \<^verbatim>\<open>process_all\<close>, and the program ends without a
  summary, with nothing counted either as a success or as a failure.
\<close>

theorem mkdir_failure_leaves_the_pool:
  "fst (compress_pdf (sim_os halving_tool) [''in'', ''a'', ''1.pdf''] [''out'', ''a'', ''1.pdf'']
          ''/ebook'' (blocked_fs, [])) = Inl FileExistsError \<and>
   (case process_all (sim_os halving_tool) (\<lambda>ts. ts) [''in''] [''out''] ''/ebook'' Stats_init
           (blocked_fs, []) of
      (e, out, st, w) \<Rightarrow> (e, out, st)) =
     (Some FileExistsError, [Found 2],
      \<lparr>total_n = 2, success = 0, failed = 0, errors = [],
        original_size = 0, compressed_size = 0\<rparr>) \<and>
   (case main (sim_os halving_tool) (\<lambda>ts. ts) [''in'', ''out'', ''2''] (blocked_fs, []) of
      (e, out, rest) \<Rightarrow> (e, out)) =
     (Raised FileExistsError, [Banner, GsFound ''10.03.1'', QualityMenu, Found 2])"
  by code_simp

subsection \<open>The scanner\<close>

lemma lower_chr_dot: "lower_chr c = CHR ''.'' \<longleftrightarrow> c = CHR ''.''"
  by (simp add: lower_chr_def)

lemma lower_chr_p: "lower_chr c = CHR ''p'' \<longleftrightarrow> c = CHR ''p'' \<or> c = CHR ''P''"
  by (simp add: lower_chr_def)

lemma lower_chr_d: "lower_chr c = CHR ''d'' \<longleftrightarrow> c = CHR ''d'' \<or> c = CHR ''D''"
  by (simp add: lower_chr_def)

lemma lower_chr_f: "lower_chr c = CHR ''f'' \<longleftrightarrow> c = CHR ''f'' \<or> c = CHR ''F''"
  by (simp add: lower_chr_def)

lemma endswith_append: "endswith s suf \<longleftrightarrow> (\<exists>pre. s = pre @ suf)"
proof
  assume "endswith s suf"
  then have "s = take (length s - length suf) s @ suf"
    by (metis append_take_drop_id endswith_def)
  then show "\<exists>pre. s = pre @ suf" ..
next
  assume "\<exists>pre. s = pre @ suf"
  then show "endswith s suf" by (auto simp: endswith_def)
qed

lemma lower_ext:
  "map lower_chr ext = ''.pdf'' \<longleftrightarrow>
     (\<exists>dot p d f. ext = [dot, p, d, f] \<and> dot = CHR ''.'' \<and>
        (p = CHR ''p'' \<or> p = CHR ''P'') \<and> (d = CHR ''d'' \<or> d = CHR ''D'') \<and>
        (f = CHR ''f'' \<or> f = CHR ''F''))"
proof
  assume "map lower_chr ext = ''.pdf''"
  then obtain dot p d f where e: "ext = [dot, p, d, f]"
    and "lower_chr dot = CHR ''.''" "lower_chr p = CHR ''p''"
        "lower_chr d = CHR ''d''" "lower_chr f = CHR ''f''"
    by (auto simp: map_eq_Cons_conv)
  then show "\<exists>dot p d f. ext = [dot, p, d, f] \<and> dot = CHR ''.'' \<and>
        (p = CHR ''p'' \<or> p = CHR ''P'') \<and> (d = CHR ''d'' \<or> d = CHR ''D'') \<and>
        (f = CHR ''f'' \<or> f = CHR ''F'')"
    unfolding lower_chr_dot lower_chr_p lower_chr_d lower_chr_f by blast
next
  assume "\<exists>dot p d f. ext = [dot, p, d, f] \<and> dot = CHR ''.'' \<and>
        (p = CHR ''p'' \<or> p = CHR ''P'') \<and> (d = CHR ''d'' \<or> d = CHR ''D'') \<and>
        (f = CHR ''f'' \<or> f = CHR ''F'')"
  then obtain dot p d f where e: "ext = [dot, p, d, f]"
    and "lower_chr dot = CHR ''.''" "lower_chr p = CHR ''p''"
        "lower_chr d = CHR ''d''" "lower_chr f = CHR ''f''"
    unfolding lower_chr_dot lower_chr_p lower_chr_d lower_chr_f by blast
  then show "map lower_chr ext = ''.pdf''" by simp
qed

lemma pdf_name_append:
  "pdf_name name \<longleftrightarrow>
     (\<exists>stem dot p d f. name = stem @ [dot, p, d, f] \<and> dot = CHR ''.'' \<and>
        (p = CHR ''p'' \<or> p = CHR ''P'') \<and> (d = CHR ''d'' \<or> d = CHR ''D'') \<and>
        (f = CHR ''f'' \<or> f = CHR ''F''))"
proof
  assume a: "pdf_name name"
  then obtain f d p dot stem where r: "rev name = f # d # p # dot # stem"
    by (auto simp: pdf_name_def split: list.splits)
  then have n: "name = rev stem @ [dot, p, d, f]"
    by (simp add: rev_swap)
  from a r have "dot = CHR ''.'' \<and>
        (p = CHR ''p'' \<or> p = CHR ''P'') \<and> (d = CHR ''d'' \<or> d = CHR ''D'') \<and>
        (f = CHR ''f'' \<or> f = CHR ''F'')"
    by (simp add: pdf_name_def)
  with n show "\<exists>stem dot p d f. name = stem @ [dot, p, d, f] \<and> dot = CHR ''.'' \<and>
        (p = CHR ''p'' \<or> p = CHR ''P'') \<and> (d = CHR ''d'' \<or> d = CHR ''D'') \<and>
        (f = CHR ''f'' \<or> f = CHR ''F'')"
    by (intro exI conjI) (erule conjunct1 | simp)+
next
  assume "\<exists>stem dot p d f. name = stem @ [dot, p, d, f] \<and> dot = CHR ''.'' \<and>
        (p = CHR ''p'' \<or> p = CHR ''P'') \<and> (d = CHR ''d'' \<or> d = CHR ''D'') \<and>
        (f = CHR ''f'' \<or> f = CHR ''F'')"
  then obtain stem dot p d f where "name = stem @ [dot, p, d, f]" and "dot = CHR ''.''"
    and "p = CHR ''p'' \<or> p = CHR ''P''" and "d = CHR ''d'' \<or> d = CHR ''D''"
    and "f = CHR ''f'' \<or> f = CHR ''F''"
    by blast
  then show "pdf_name name" by (simp add: pdf_name_def)
qed

lemma endswith_pdf: "endswith (lower name) ''.pdf'' \<longleftrightarrow> pdf_name name"
proof
  assume "endswith (lower name) ''.pdf''"
  then obtain pre where "map lower_chr name = pre @ ''.pdf''"
    unfolding endswith_append lower_def ..
  then obtain stem ext where n: "name = stem @ ext" and "map lower_chr ext = ''.pdf''"
    unfolding map_eq_append_conv by metis
  then obtain dot p d f where "ext = [dot, p, d, f]" and "dot = CHR ''.''"
    and "p = CHR ''p'' \<or> p = CHR ''P''" and "d = CHR ''d'' \<or> d = CHR ''D''"
    and "f = CHR ''f'' \<or> f = CHR ''F''"
    unfolding lower_ext by blast
  with n show "pdf_name name"
    unfolding pdf_name_append by blast
next
  assume "pdf_name name"
  then obtain stem dot p d f where n: "name = stem @ [dot, p, d, f]" and "dot = CHR ''.''"
    and "p = CHR ''p'' \<or> p = CHR ''P''" and "d = CHR ''d'' \<or> d = CHR ''D''"
    and "f = CHR ''f'' \<or> f = CHR ''F''"
    unfolding pdf_name_append by blast
  then have "map lower_chr [dot, p, d, f] = ''.pdf''"
    unfolding lower_ext by blast
  with n have "lower name = map lower_chr stem @ ''.pdf''"
    by (simp add: lower_def)
  then show "endswith (lower name) ''.pdf''"
    unfolding endswith_append ..
qed

lemma pdfs_of_walk_Nil: "pdfs_of_walk [] = []"
  by (simp add: pdfs_of_walk_def)

lemma pdfs_of_walk_Cons:
  "pdfs_of_walk ((r, ds, fs) # ts) =
     map (\<lambda>f. r @ [f]) (filter pdf_name fs) @ pdfs_of_walk ts"
  by (simp add: pdfs_of_walk_def endswith_pdf)

lemma pdfs_of_walk_concat: "pdfs_of_walk (concat tss) = concat (map pdfs_of_walk tss)"
  by (induction tss) (simp_all add: pdfs_of_walk_def)

lemma found_in_Dir_only: "found_in t p \<Longrightarrow> \<exists>es. t = Dir es"
  by (auto elim: found_in.cases)

lemma found_in_Dir:
  "found_in (Dir es) p \<longleftrightarrow>
     (\<exists>name f. p = [name] \<and> (name, f) \<in> set es \<and> \<not> is_dir f) \<or>
     (\<exists>name ds q. p = name # q \<and> (name, Dir ds) \<in> set es \<and> found_in (Dir ds) q)"
  by (subst found_in.simps) auto

lemma found_in_nonempty: "found_in t p \<Longrightarrow> p \<noteq> []"
  by (induction rule: found_in.induct) auto

lemma regular_at_nonempty: "regular_at t p \<Longrightarrow> p \<noteq> []"
  by (induction rule: regular_at.induct) auto

lemma in_pdfs_walk_Dir:
  "x \<in> set (pdfs_of_walk (walk_in base (Dir es))) \<longleftrightarrow>
     (\<exists>name d. (name, d) \<in> set es \<and> \<not> is_dir d \<and> pdf_name name \<and> x = base @ [name]) \<or>
     (\<exists>name d. (name, d) \<in> set es \<and> is_dir d \<and> \<not> is_link d \<and>
        x \<in> set (pdfs_of_walk (walk_in (base @ [name]) d)))"
  by (simp add: pdfs_of_walk_Cons pdfs_of_walk_concat image_iff Bex_def) blast

lemma in_pdfs_of_walk:
  "x \<in> set (pdfs_of_walk (walk_in base t)) \<longleftrightarrow>
     (\<exists>p. x = base @ p \<and> found_in t p \<and> pdf_name (last p))"
proof (induction t arbitrary: base x)
  case (File n)
  show ?case by (auto simp: pdfs_of_walk_Nil dest: found_in_Dir_only)
next
  case Special
  show ?case by (auto simp: pdfs_of_walk_Nil dest: found_in_Dir_only)
next
  case Dangling
  show ?case by (auto simp: pdfs_of_walk_Nil dest: found_in_Dir_only)
next
  case (Link es)
  show ?case by (auto simp: pdfs_of_walk_Nil dest: found_in_Dir_only)
next
  case (Locked es)
  show ?case by (auto simp: pdfs_of_walk_Nil dest: found_in_Dir_only)
next
  case (Dir es)
  have IH: "y \<in> set (pdfs_of_walk (walk_in r d)) \<longleftrightarrow>
              (\<exists>p. y = r @ p \<and> found_in d p \<and> pdf_name (last p))"
    if "(name, d) \<in> set es" for name d r y
    using Dir [of "(name, d)" d y r] that by simp
  show ?case
  proof
    assume "x \<in> set (pdfs_of_walk (walk_in base (Dir es)))"
    then consider
      (leaf) name d where "(name, d) \<in> set es" "\<not> is_dir d" "pdf_name name" "x = base @ [name]"
      | (sub) name d where "(name, d) \<in> set es"
          "x \<in> set (pdfs_of_walk (walk_in (base @ [name]) d))"
      using in_pdfs_walk_Dir [of x base es] by blast
    then show "\<exists>p. x = base @ p \<and> found_in (Dir es) p \<and> pdf_name (last p)"
    proof cases
      case leaf
      then have "found_in (Dir es) [name]" by (simp add: found_in.here)
      moreover have "last [name] = name" by simp
      ultimately show ?thesis using leaf(3,4) by metis
    next
      case sub
      from sub(2) obtain p where p: "x = (base @ [name]) @ p" "found_in d p" "pdf_name (last p)"
        using IH [OF sub(1), of x "base @ [name]"] by blast
      then obtain ds where d: "d = Dir ds" by (auto dest: found_in_Dir_only)
      from p have ne: "p \<noteq> []" by (simp add: found_in_nonempty)
      have "found_in (Dir es) (name # p)"
        using sub(1) p(2) unfolding d by (rule found_in.below)
      moreover have "x = base @ (name # p)" using p(1) by simp
      moreover have "pdf_name (last (name # p))" using p(3) ne by simp
      ultimately show ?thesis by blast
    qed
  next
    assume "\<exists>p. x = base @ p \<and> found_in (Dir es) p \<and> pdf_name (last p)"
    then obtain p where p: "x = base @ p" "found_in (Dir es) p" "pdf_name (last p)" by blast
    from p(2) consider
      (leaf) name f where "p = [name]" "(name, f) \<in> set es" "\<not> is_dir f"
      | (sub) name ds q where "p = name # q" "(name, Dir ds) \<in> set es" "found_in (Dir ds) q"
      using found_in_Dir [of es p] by blast
    then show "x \<in> set (pdfs_of_walk (walk_in base (Dir es)))"
    proof cases
      case leaf
      have "pdf_name name" using p(3) leaf(1) by simp
      moreover have "x = base @ [name]" using p(1) leaf(1) by simp
      ultimately show ?thesis
        using leaf(2,3) in_pdfs_walk_Dir [of x base es] by blast
    next
      case sub
      have ne: "q \<noteq> []" using sub(3) by (rule found_in_nonempty)
      have "pdf_name (last q)" using p(3) sub(1) ne by simp
      moreover have "x = (base @ [name]) @ q" using p(1) sub(1) by simp
      ultimately have "x \<in> set (pdfs_of_walk (walk_in (base @ [name]) (Dir ds)))"
        using IH [OF sub(2), of x "base @ [name]"] sub(3) by blast
      moreover have "is_dir (Dir ds) \<and> \<not> is_link (Dir ds)" by simp
      ultimately show ?thesis
        using sub(2) in_pdfs_walk_Dir [of x base es] by blast
    qed
  qed
qed

lemma set_find_all_pdfs:
  "set (fst (find_all_pdfs (sim_os tool) input_dir (fs, lg))) =
     {input_dir @ p |p t. lookup fs input_dir = Some t \<and> found_in (opened t) p \<and>
        pdf_name (last p)}"
proof (cases "lookup fs input_dir")
  case None
  then show ?thesis
    by (simp add: find_all_pdfs_def sim_os_def pdfs_of_walk_Nil)
next
  case (Some t)
  have "set (pdfs_of_walk (walk_in input_dir (opened t))) =
          {input_dir @ p |p. found_in (opened t) p \<and> pdf_name (last p)}"
    using in_pdfs_of_walk [of _ input_dir "opened t"] by blast
  with Some show ?thesis
    by (simp add: find_all_pdfs_def sim_os_def walk_def)
qed

text \<open>
  In a tree of regular files and plain directories the two notions agree.
\<close>

lemma plain_found_regular: "plain t \<Longrightarrow> found_in t p \<longleftrightarrow> regular_at t p"
proof (induction t arbitrary: p)
  case (Dir es)
  have IH: "found_in d q \<longleftrightarrow> regular_at d q" if "(name, d) \<in> set es" for name d q
    using Dir.IH [of "(name, d)" d q] Dir.prems that by auto
  have pl: "plain d" if "(name, d) \<in> set es" for name d
    using Dir.prems that by auto
  show ?case
  proof
    assume "found_in (Dir es) p"
    then consider
      (leaf) name f where "p = [name]" "(name, f) \<in> set es" "\<not> is_dir f"
      | (sub) name ds q where "p = name # q" "(name, Dir ds) \<in> set es" "found_in (Dir ds) q"
      using found_in_Dir [of es p] by blast
    then show "regular_at (Dir es) p"
    proof cases
      case leaf
      from pl [OF leaf(2)] leaf(3) obtain n where "f = File n" by (cases f) auto
      with leaf show ?thesis by (auto intro: regular_at.here)
    next
      case sub
      from sub(3) IH [OF sub(2)] have "regular_at (Dir ds) q" by simp
      with sub show ?thesis by (auto intro: regular_at.below)
    qed
  next
    assume "regular_at (Dir es) p"
    then consider
      (leaf) name n where "p = [name]" "(name, File n) \<in> set es"
      | (sub) name d q where "p = name # q" "(name, d) \<in> set es" "regular_at d q"
      by (cases rule: regular_at.cases) auto
    then show "found_in (Dir es) p"
    proof cases
      case leaf
      then show ?thesis by (auto intro: found_in.here)
    next
      case sub
      from sub(3) IH [OF sub(2)] have f: "found_in d q" by simp
      then obtain ds where "d = Dir ds" by (auto dest: found_in_Dir_only)
      with sub f show ?thesis by (auto intro: found_in.below)
    qed
  qed
next
  case (File n)
  show ?case by (auto dest: found_in_Dir_only elim: regular_at.cases)
qed simp_all

text \<open>
  Claim C3, as the code has it. For every tree, the set of the paths that
  \<^verbatim>\<open>find_all_pdfs\<close> returns is exactly the set of the entries that are not directories
  (regular files, and also special files and dangling links) whose name ends in \<^verbatim>\<open>.pdf\<close>,
  whatever the case of the letters, at any depth that is reached from the input
  directory through directories that can be listed and are not symbolic links. In a
  tree that has only regular files and such directories this is the set of the regular
  files beneath the input directory with such a name. (When the input directory does
  not exist both sets are empty.)
\<close>

theorem find_all_pdfs_exact:
  "set (fst (find_all_pdfs (sim_os tool) input_dir (fs, lg))) =
     {input_dir @ p |p t. lookup fs input_dir = Some t \<and> found_in (opened t) p \<and>
        pdf_name (last p)} \<and>
   (\<forall>t. lookup fs input_dir = Some t \<and> plain t \<longrightarrow>
      set (fst (find_all_pdfs (sim_os tool) input_dir (fs, lg))) =
        {input_dir @ p |p. regular_at t p \<and> pdf_name (last p)})"
proof (intro conjI allI impI)
  show "set (fst (find_all_pdfs (sim_os tool) input_dir (fs, lg))) =
     {input_dir @ p |p t. lookup fs input_dir = Some t \<and> found_in (opened t) p \<and>
        pdf_name (last p)}"
    by (rule set_find_all_pdfs)
next
  fix t
  assume a: "lookup fs input_dir = Some t \<and> plain t"
  then have "opened t = t" by (cases t) auto
  moreover from a have "found_in t p \<longleftrightarrow> regular_at t p" for p
    by (simp add: plain_found_regular)
  ultimately show "set (fst (find_all_pdfs (sim_os tool) input_dir (fs, lg))) =
        {input_dir @ p |p. regular_at t p \<and> pdf_name (last p)}"
    using a unfolding set_find_all_pdfs by simp
qed

text \<open>
  The tree of the scenario has only regular files and plain directories.
\<close>

theorem find_all_pdfs_exact_witness:
  "set (fst (find_all_pdfs (sim_os halving_tool) [''in''] (scenario_fs, []))) =
     {[''in''] @ p |p.
        regular_at (Dir [(''a'', Dir [(''1.pdf'', File 1000)]),
                         (''b'', Dir [(''2.pdf'', File 2000)])]) p \<and>
        pdf_name (last p)}"
proof -
  let ?t = "Dir [(''a'', Dir [(''1.pdf'', File 1000)]), (''b'', Dir [(''2.pdf'', File 2000)])]"
  have "lookup scenario_fs [''in''] = Some ?t \<and> plain ?t"
    by (simp add: scenario_fs_def)
  with find_all_pdfs_exact [of halving_tool "[''in'']" scenario_fs "[]"] show ?thesis
    by blast
qed

text \<open>
  Claim C3 as it is worded fails: the FIFO \<^verbatim>\<open>in/pipe.pdf\<close> is returned and is not a
  regular file, and the regular file \<^verbatim>\<open>in/linkdir/deep.pdf\<close>, beneath a symbolic link to a
  directory, is not returned.
\<close>

theorem scanner_is_not_regular_files:
  "set (fst (find_all_pdfs (sim_os halving_tool) [''in''] (special_fs, []))) \<noteq>
     {[''in''] @ p |p t. lookup special_fs [''in''] = Some t \<and> regular_at t p \<and>
        pdf_name (last p)} \<and>
   [''in'', ''pipe.pdf''] \<in>
     set (fst (find_all_pdfs (sim_os halving_tool) [''in''] (special_fs, []))) \<and>
   [''in'', ''pipe.pdf''] \<notin>
     {[''in''] @ p |p t. lookup special_fs [''in''] = Some t \<and> regular_at t p \<and>
        pdf_name (last p)} \<and>
   [''in'', ''linkdir'', ''deep.pdf''] \<in>
     {[''in''] @ p |p t. lookup special_fs [''in''] = Some t \<and> regular_at t p \<and>
        pdf_name (last p)} \<and>
   [''in'', ''linkdir'', ''deep.pdf''] \<notin>
     set (fst (find_all_pdfs (sim_os halving_tool) [''in''] (special_fs, [])))"
proof -
  let ?t = "Dir [(''a.pdf'', File 10), (''pipe.pdf'', Special), (''gone.pdf'', Dangling),
                 (''linkdir'', Link [(''deep.pdf'', File 5)]),
                 (''locked'', Locked [(''b.pdf'', File 3)])]"
  let ?R = "{[''in''] @ p |p t. lookup special_fs [''in''] = Some t \<and> regular_at t p \<and>
        pdf_name (last p)}"
  have found: "fst (find_all_pdfs (sim_os halving_tool) [''in''] (special_fs, [])) =
      [[''in'', ''a.pdf''], [''in'', ''pipe.pdf''], [''in'', ''gone.pdf'']]"
    by code_simp
  have l: "lookup special_fs [''in''] = Some ?t"
    by (simp add: special_fs_def)
  have "\<not> regular_at ?t [''pipe.pdf'']"
  proof
    assume "regular_at ?t [''pipe.pdf'']"
    then show False
      by (cases rule: regular_at.cases) (auto dest: regular_at_nonempty)
  qed
  then have pipe: "[''in'', ''pipe.pdf''] \<notin> ?R"
    using l by auto
  have "regular_at (Link [(''deep.pdf'', File 5)]) [''deep.pdf'']"
    by (rule regular_at.here [of _ 5]) simp
  then have "regular_at ?t [''linkdir'', ''deep.pdf'']"
    by (rule regular_at.below [rotated]) simp
  moreover have "pdf_name ''deep.pdf''" by (simp add: pdf_name_def)
  ultimately have deep: "[''in'', ''linkdir'', ''deep.pdf''] \<in> ?R"
    using l by auto
  have in1: "[''in'', ''pipe.pdf''] \<in>
      set (fst (find_all_pdfs (sim_os halving_tool) [''in''] (special_fs, [])))"
    using found by simp
  have out2: "[''in'', ''linkdir'', ''deep.pdf''] \<notin>
      set (fst (find_all_pdfs (sim_os halving_tool) [''in''] (special_fs, [])))"
    using found by simp
  from in1 pipe have "set (fst (find_all_pdfs (sim_os halving_tool) [''in''] (special_fs, [])))
      \<noteq> ?R"
    by metis
  with in1 pipe deep out2 show ?thesis by (intro conjI)
qed

subsection \<open>The planner\<close>

lemma plan_tasks_map:
  "plan_tasks input_dir output_dir (map (\<lambda>r. input_dir @ r) rels) =
     Inr (map (\<lambda>r. (input_dir @ r, output_dir @ r)) rels)"
  by (induction rels) (simp_all add: relative_to_def)

lemma under_root:
  assumes "\<forall>x \<in> set xs. \<exists>p. x = base @ p"
  shows "xs = map (\<lambda>r. base @ r) (map (drop (length base)) xs)"
  using assms by (induction xs) auto

text \<open>
  Claim C4. The planner makes one task for every file the scanner found, in the same
  order, and the output path of the task is the output directory joined with the path
  of the file relative to the input directory: the files are \<open>input_dir @ r\<close> and the
  tasks are the pairs \<open>(input_dir @ r, output_dir @ r)\<close>.
\<close>

theorem planner_mirrors_tree:
  "\<exists>rels. fst (find_all_pdfs (sim_os tool) input_dir (fs, lg)) = map (\<lambda>r. input_dir @ r) rels \<and>
          plan_tasks input_dir output_dir (fst (find_all_pdfs (sim_os tool) input_dir (fs, lg))) =
            Inr (map (\<lambda>r. (input_dir @ r, output_dir @ r)) rels)"
proof -
  let ?files = "fst (find_all_pdfs (sim_os tool) input_dir (fs, lg))"
  have "\<forall>x \<in> set ?files. \<exists>p. x = input_dir @ p"
    unfolding set_find_all_pdfs by blast
  then have eq: "?files = map (\<lambda>r. input_dir @ r) (map (drop (length input_dir)) ?files)"
    by (rule under_root)
  have "plan_tasks input_dir output_dir ?files =
          Inr (map (\<lambda>r. (input_dir @ r, output_dir @ r)) (map (drop (length input_dir)) ?files))"
    by (subst eq) (rule plan_tasks_map)
  with eq show ?thesis by blast
qed

subsection \<open>The simulation, evaluated\<close>

lemma perm2:
  assumes "mset xs = mset [a, b]"
  shows "xs = [a, b] \<or> xs = [b, a]"
proof -
  from assms have "length xs = 2" by (metis length_Cons list.size(3) size_mset numeral_2_eq_2)
  then obtain x y where xs: "xs = [x, y]"
    by (metis (no_types) length_0_conv length_Suc_conv numeral_2_eq_2)
  with assms show ?thesis by (auto simp: add_eq_conv_ex)
qed

lemma process_all_sched:
  assumes "find_all_pdfs os i w = (files, w1)"
    and "plan_tasks i out files = Inr tasks"
    and "sched tasks = sched' tasks"
  shows "process_all os sched i out q st w = process_all os sched' i out q st w"
  using assms by (simp add: process_all_def)

lemma scenario_find:
  "find_all_pdfs (sim_os halving_tool) [''in''] (scenario_fs, []) =
     ([[''in'', ''a'', ''1.pdf''], [''in'', ''b'', ''2.pdf'']], (scenario_fs, [Walk [''in'']]))"
  by code_simp

lemma scenario_plan:
  "plan_tasks [''in''] [''out''] [[''in'', ''a'', ''1.pdf''], [''in'', ''b'', ''2.pdf'']] =
     Inr [([''in'', ''a'', ''1.pdf''], [''out'', ''a'', ''1.pdf'']),
          ([''in'', ''b'', ''2.pdf''], [''out'', ''b'', ''2.pdf''])]"
  by code_simp

lemma scenario_order_ab:
  "(case process_all (sim_os halving_tool)
      (\<lambda>ts. [([''in'', ''a'', ''1.pdf''], [''out'', ''a'', ''1.pdf'']),
             ([''in'', ''b'', ''2.pdf''], [''out'', ''b'', ''2.pdf''])])
      [''in''] [''out''] ''/ebook'' Stats_init (scenario_fs, []) of
      (e, out, st, w) \<Rightarrow> (e, out, st)) =
   (None,
    [Found 2, Rule, SummaryTitle, Processed 2, Succeeded 1, WithErrors 1,
     SizeBefore 1000, SizeAfter 500, Saved 500 50, ErrorsTitle,
     ErrorItem ''in/b/2.pdf'', Rule],
    \<lparr>total_n = 2, success = 1, failed = 1, errors = [''in/b/2.pdf''],
      original_size = 1000, compressed_size = 500\<rparr>)"
  by code_simp

lemma scenario_order_ba:
  "(case process_all (sim_os halving_tool)
      (\<lambda>ts. [([''in'', ''b'', ''2.pdf''], [''out'', ''b'', ''2.pdf'']),
             ([''in'', ''a'', ''1.pdf''], [''out'', ''a'', ''1.pdf''])])
      [''in''] [''out''] ''/ebook'' Stats_init (scenario_fs, []) of
      (e, out, st, w) \<Rightarrow> (e, out, st)) =
   (None,
    [Found 2, Rule, SummaryTitle, Processed 2, Succeeded 1, WithErrors 1,
     SizeBefore 1000, SizeAfter 500, Saved 500 50, ErrorsTitle,
     ErrorItem ''in/b/2.pdf'', Rule],
    \<lparr>total_n = 2, success = 1, failed = 1, errors = [''in/b/2.pdf''],
      original_size = 1000, compressed_size = 500\<rparr>)"
  by code_simp

subsection \<open>The statistics\<close>

lemma length_run_tasks: "run_tasks os q ts w = (rs, w') \<Longrightarrow> length rs = length ts"
  by (induction ts arbitrary: w rs) (auto split: prod.splits)

lemma plan_tasks_length: "plan_tasks i out fs = Inr ts \<Longrightarrow> length ts = length fs"
  by (induction fs arbitrary: ts) (auto split: sum.splits)

lemma aggregate_counts:
  "aggregate st rs = (None, st') \<Longrightarrow>
     success st' + failed st' = success st + failed st + int (length rs) \<and>
     total_n st' = total_n st"
  by (induction st rs rule: aggregate.induct) (auto split: if_splits)

lemma aggregate_accumulated:
  "aggregate d rs = (e, d') \<Longrightarrow>
     aggregate (accumulated prev d) rs = (e, accumulated prev d')"
proof (induction d rs rule: aggregate.induct)
  case (1 st)
  then show ?case by simp
next
  case (2 st e rest)
  then show ?case by simp
next
  case (3 st ok orig compr p rest)
  show ?case
  proof (cases ok)
    case True
    have "accumulated prev st\<lparr>success := success (accumulated prev st) + 1,
            original_size := original_size (accumulated prev st) + orig,
            compressed_size := compressed_size (accumulated prev st) + compr\<rparr>
          = accumulated prev (st\<lparr>success := success st + 1,
              original_size := original_size st + orig,
              compressed_size := compressed_size st + compr\<rparr>)"
      by (simp add: accumulated_def)
    with 3 True show ?thesis by simp
  next
    case False
    have "accumulated prev st\<lparr>failed := failed (accumulated prev st) + 1,
            errors := errors (accumulated prev st) @ [p]\<rparr>
          = accumulated prev (st\<lparr>failed := failed st + 1, errors := errors st @ [p]\<rparr>)"
      by (simp add: accumulated_def)
    with 3 False show ?thesis by simp
  qed
qed

lemma summary_returns: "\<exists>ls. summary st = Inr ls"
  by (simp add: summary_def savings_lines_def truediv_def Let_def)

lemma accumulated_fresh:
  "accumulated prev (Stats_init\<lparr>total_n := n\<rparr>) = prev\<lparr>total_n := n\<rparr>"
  by (simp add: accumulated_def Stats_init_def)

text \<open>
  Claim C2. When the batch of a freshly started program completes, that is when
  \<^verbatim>\<open>process_all\<close> returns, \<open>success + failed = total\<close> and \<open>total\<close> is the number of files
  the scanner found. The pool completes every submitted task once: \<open>sched\<close> permutes the
  tasks.
\<close>

theorem process_all_totals:
  assumes sched: "\<And>ts. mset (sched ts) = mset ts"
    and run: "process_all os sched input_dir output_dir quality Stats_init w = (None, out, st, w')"
  shows "success st + failed st = total_n st \<and>
         total_n st = int (length (fst (find_all_pdfs os input_dir w)))"
proof -
  obtain pdf_files w1 where f: "find_all_pdfs os input_dir w = (pdf_files, w1)"
    by (cases "find_all_pdfs os input_dir w")
  let ?st1 = "Stats_init\<lparr>total_n := int (length pdf_files)\<rparr>"
  from run f obtain tasks where p: "plan_tasks input_dir output_dir pdf_files = Inr tasks"
    by (auto simp: process_all_def Let_def split: sum.splits)
  obtain rs w2 where r: "run_tasks os quality (sched tasks) w1 = (rs, w2)"
    by (cases "run_tasks os quality (sched tasks) w1")
  from run f p r have a: "aggregate ?st1 rs = (None, st)"
    by (auto simp: process_all_def Let_def split: prod.splits option.splits sum.splits)
  have "length rs = length (sched tasks)"
    using r by (rule length_run_tasks)
  also have "\<dots> = length tasks"
    using sched [of tasks] by (metis size_mset)
  also have "\<dots> = length pdf_files"
    using p by (rule plan_tasks_length)
  finally have len: "length rs = length pdf_files" .
  from aggregate_counts [OF a] len f show ?thesis
    by (simp add: Stats_init_def)
qed

text \<open>
  The batch of the scenario completes, with two files.
\<close>

theorem process_all_totals_witness:
  "success (fst (snd (snd first_run))) + failed (fst (snd (snd first_run)))
     = total_n (fst (snd (snd first_run))) \<and>
   total_n (fst (snd (snd first_run))) = 2"
proof -
  have "fst first_run = None" by code_simp
  then have run: "process_all (sim_os halving_tool) (\<lambda>ts. ts) [''in''] [''out''] ''/ebook''
      Stats_init (scenario_fs, []) =
      (None, fst (snd first_run), fst (snd (snd first_run)), snd (snd (snd first_run)))"
    by (simp add: first_run_def prod_eq_iff)
  have sched: "\<And>ts :: (path \<times> path) list. mset ((\<lambda>ts. ts) ts) = mset ts" by simp
  have "int (length (fst (find_all_pdfs (sim_os halving_tool) [''in''] (scenario_fs, [])))) = 2"
    by (simp add: scenario_find)
  with process_all_totals [OF sched run] show ?thesis by simp
qed

text \<open>
  Claim C10. \<^verbatim>\<open>process_all\<close> resets nothing but \<open>total\<close>: started from the \<^verbatim>\<open>Stats\<close> \<open>prev\<close>
  that an earlier call left, it ends with the counts, sizes and error list of \<open>prev\<close>
  plus what the same run leaves in a fresh \<^verbatim>\<open>Stats\<close>, and with the \<open>total\<close> of this run
  alone.
\<close>

theorem process_all_accumulates:
  assumes run: "process_all os sched input_dir output_dir quality Stats_init w = (None, out, d, w')"
  shows "\<exists>out'. process_all os sched input_dir output_dir quality prev w =
           (None, out',
            prev\<lparr>total_n := total_n d,
                 success := success prev + success d,
                 failed := failed prev + failed d,
                 errors := errors prev @ errors d,
                 original_size := original_size prev + original_size d,
                 compressed_size := compressed_size prev + compressed_size d\<rparr>,
            w')"
proof -
  obtain pdf_files w1 where f: "find_all_pdfs os input_dir w = (pdf_files, w1)"
    by (cases "find_all_pdfs os input_dir w")
  let ?n = "int (length pdf_files)"
  from run f obtain tasks where p: "plan_tasks input_dir output_dir pdf_files = Inr tasks"
    by (auto simp: process_all_def Let_def split: sum.splits)
  obtain rs w2 where r: "run_tasks os quality (sched tasks) w1 = (rs, w2)"
    by (cases "run_tasks os quality (sched tasks) w1")
  from run f p r have a: "aggregate (Stats_init\<lparr>total_n := ?n\<rparr>) rs = (None, d)" and w: "w' = w2"
    by (auto simp: process_all_def Let_def split: prod.splits option.splits sum.splits)
  have "aggregate (prev\<lparr>total_n := ?n\<rparr>) rs = (None, accumulated prev d)"
    using aggregate_accumulated [OF a, of prev] by (simp add: accumulated_fresh)
  moreover obtain ls where "summary (accumulated prev d) = Inr ls"
    using summary_returns by blast
  moreover have "total_n d = ?n"
    using aggregate_counts [OF a] by simp
  moreover have "accumulated prev d =
      prev\<lparr>total_n := total_n d,
           success := success prev + success d,
           failed := failed prev + failed d,
           errors := errors prev @ errors d,
           original_size := original_size prev + original_size d,
           compressed_size := compressed_size prev + compressed_size d\<rparr>"
    by (simp add: accumulated_def)
  ultimately show ?thesis
    using f p r w by (simp add: process_all_def Let_def)
qed

text \<open>
  The batch of the scenario run a second time in the same process: two successes and
  two failures for a total of two files, and the failed path listed twice.
\<close>

theorem process_all_accumulates_witness:
  "\<exists>out'. process_all (sim_os halving_tool) (\<lambda>ts. ts) [''in''] [''out''] ''/ebook''
      (fst (snd (snd first_run))) (snd (snd (snd first_run))) =
    (None, out',
     \<lparr>total_n = 2, success = 2, failed = 2, errors = [''in/b/2.pdf'', ''in/b/2.pdf''],
       original_size = 2000, compressed_size = 1000\<rparr>,
     snd (snd (snd (process_all (sim_os halving_tool) (\<lambda>ts. ts) [''in''] [''out''] ''/ebook''
       Stats_init (snd (snd (snd first_run)))))))"
proof -
  let ?again = "process_all (sim_os halving_tool) (\<lambda>ts. ts) [''in''] [''out''] ''/ebook''
       Stats_init (snd (snd (snd first_run)))"
  have prev: "fst (snd (snd first_run)) =
      \<lparr>total_n = 2, success = 1, failed = 1, errors = [''in/b/2.pdf''],
        original_size = 1000, compressed_size = 500\<rparr>"
    by code_simp
  have "fst ?again = None" by code_simp
  moreover have "fst (snd (snd ?again)) =
      \<lparr>total_n = 2, success = 1, failed = 1, errors = [''in/b/2.pdf''],
        original_size = 1000, compressed_size = 500\<rparr>"
    by code_simp
  ultimately have run: "?again =
      (None, fst (snd ?again),
       \<lparr>total_n = 2, success = 1, failed = 1, errors = [''in/b/2.pdf''],
         original_size = 1000, compressed_size = 500\<rparr>,
       snd (snd (snd ?again)))"
    by (simp add: prod_eq_iff)
  from process_all_accumulates [OF run, of "fst (snd (snd first_run))"] show ?thesis
    by (simp add: prev)
qed

text \<open>
  Claim C7. The summary never divides by zero: it is printed for every \<^verbatim>\<open>Stats\<close>; when
  the original sizes add up to zero the percentage it shows is 0; and for an input
  directory without PDF files the fresh program prints a total of 0, no sizes and no list
  of failures.
\<close>

theorem summary_guarded:
  "(\<exists>ls. summary st = Inr ls) \<and>
   (\<forall>ls saved ratio.
      summary st = Inr ls \<and> original_size st = 0 \<and> Saved saved ratio \<in> set ls \<longrightarrow> ratio = 0) \<and>
   (0 < total_n st \<and> original_size st = 0 \<longrightarrow>
      (\<exists>ls. summary st = Inr ls \<and> Saved (- compressed_size st) 0 \<in> set ls)) \<and>
   (sched [] = [] \<and> fst (find_all_pdfs os input_dir w) = [] \<longrightarrow>
      process_all os sched input_dir output_dir quality Stats_init w =
        (None,
         [Found 0, Rule, SummaryTitle, Processed 0, Succeeded 0, WithErrors 0, Rule],
         Stats_init, snd (find_all_pdfs os input_dir w)))"
proof (intro conjI allI impI)
  show "\<exists>ls. summary st = Inr ls" by (rule summary_returns)
next
  fix ls saved ratio
  assume "summary st = Inr ls \<and> original_size st = 0 \<and> Saved saved ratio \<in> set ls"
  then show "ratio = 0"
    by (auto simp: summary_def savings_lines_def error_lines_def Let_def split: if_splits)
next
  assume "0 < total_n st \<and> original_size st = 0"
  then show "\<exists>ls. summary st = Inr ls \<and> Saved (- compressed_size st) 0 \<in> set ls"
    by (simp add: summary_def savings_lines_def Let_def)
next
  assume a: "sched [] = [] \<and> fst (find_all_pdfs os input_dir w) = []"
  obtain w1 where f: "find_all_pdfs os input_dir w = ([], w1)"
    using a by (cases "find_all_pdfs os input_dir w") simp
  show "process_all os sched input_dir output_dir quality Stats_init w =
        (None,
         [Found 0, Rule, SummaryTitle, Processed 0, Succeeded 0, WithErrors 0, Rule],
         Stats_init, snd (find_all_pdfs os input_dir w))"
    using a f
    by (simp add: process_all_def Let_def summary_def savings_lines_def error_lines_def
        Stats_init_def)
qed

text \<open>
  An empty input directory.
\<close>

theorem summary_guarded_witness:
  "process_all (sim_os halving_tool) (\<lambda>ts. ts) [''in''] [''out''] ''/ebook'' Stats_init
     (empty_fs, []) =
   (None, [Found 0, Rule, SummaryTitle, Processed 0, Succeeded 0, WithErrors 0, Rule],
    Stats_init, (empty_fs, [Walk [''in'']]))"
proof -
  have f: "find_all_pdfs (sim_os halving_tool) [''in''] (empty_fs, []) =
      ([], (empty_fs, [Walk [''in'']]))"
    by code_simp
  from summary_guarded [where sched = "\<lambda>ts. ts" and os = "sim_os halving_tool"
      and input_dir = "[''in'']" and w = "(empty_fs, [])" and output_dir = "[''out'']"
      and quality = "''/ebook''"]
  show ?thesis by (simp add: f)
qed

subsection \<open>The scenario\<close>

text \<open>
  Claim C6. The input directory holds \<^verbatim>\<open>a/1.pdf\<close> (1000 bytes) and \<^verbatim>\<open>b/2.pdf\<close> (2000
  bytes); the tool halves the first and fails for the second. In whatever order the
  two tasks complete, the batch ends with total 2, success 1, failed 1, original size
  1000, compressed size 500, the one failed path \<^verbatim>\<open>in/b/2.pdf\<close> and savings of 500 bytes,
  which is 50 percent: the failed task adds to neither size.
\<close>

theorem scenario_batch:
  assumes sched: "\<And>ts. mset (sched ts) = mset ts"
  shows "\<exists>w'. process_all (sim_os halving_tool) sched [''in''] [''out''] ''/ebook''
                 Stats_init (scenario_fs, []) =
           (None,
            [Found 2, Rule, SummaryTitle, Processed 2, Succeeded 1, WithErrors 1,
             SizeBefore 1000, SizeAfter 500, Saved 500 50, ErrorsTitle,
             ErrorItem ''in/b/2.pdf'', Rule],
            \<lparr>total_n = 2, success = 1, failed = 1, errors = [''in/b/2.pdf''],
              original_size = 1000, compressed_size = 500\<rparr>,
            w')"
proof -
  let ?a = "([''in'', ''a'', ''1.pdf''], [''out'', ''a'', ''1.pdf''])"
  let ?b = "([''in'', ''b'', ''2.pdf''], [''out'', ''b'', ''2.pdf''])"
  from sched [of "[?a, ?b]"] have "sched [?a, ?b] = [?a, ?b] \<or> sched [?a, ?b] = [?b, ?a]"
    by (rule perm2)
  then show ?thesis
  proof
    assume "sched [?a, ?b] = [?a, ?b]"
    then have "process_all (sim_os halving_tool) sched [''in''] [''out''] ''/ebook''
                 Stats_init (scenario_fs, []) =
               process_all (sim_os halving_tool) (\<lambda>ts. [?a, ?b]) [''in''] [''out''] ''/ebook''
                 Stats_init (scenario_fs, [])"
      by (intro process_all_sched [OF scenario_find scenario_plan]) simp
    with scenario_order_ab show ?thesis
      by (auto split: prod.splits)
  next
    assume "sched [?a, ?b] = [?b, ?a]"
    then have "process_all (sim_os halving_tool) sched [''in''] [''out''] ''/ebook''
                 Stats_init (scenario_fs, []) =
               process_all (sim_os halving_tool) (\<lambda>ts. [?b, ?a]) [''in''] [''out''] ''/ebook''
                 Stats_init (scenario_fs, [])"
      by (intro process_all_sched [OF scenario_find scenario_plan]) simp
    with scenario_order_ba show ?thesis
      by (auto split: prod.splits)
  qed
qed

text \<open>
  The tasks completing in the order of their submission.
\<close>

theorem scenario_batch_witness:
  "\<exists>w'. process_all (sim_os halving_tool) (\<lambda>ts. ts) [''in''] [''out''] ''/ebook''
                 Stats_init (scenario_fs, []) =
           (None,
            [Found 2, Rule, SummaryTitle, Processed 2, Succeeded 1, WithErrors 1,
             SizeBefore 1000, SizeAfter 500, Saved 500 50, ErrorsTitle,
             ErrorItem ''in/b/2.pdf'', Rule],
            \<lparr>total_n = 2, success = 1, failed = 1, errors = [''in/b/2.pdf''],
              original_size = 1000, compressed_size = 500\<rparr>,
            w')"
  using scenario_batch [of "\<lambda>ts. ts"] by simp

subsection \<open>The start of the program\<close>

lemma compress_pdf_log:
  "\<exists>rest. snd (snd (compress_pdf (sim_os tool) i out q (t, lg))) = lg @ rest"
  by (auto simp: compress_pdf_def sim_os_def subprocess_run_def
      split: prod.splits sum.splits if_splits)

lemma run_tasks_log:
  "\<exists>rest. snd (snd (run_tasks (sim_os tool) q ts (t, lg))) = lg @ rest"
proof (induction ts arbitrary: t lg)
  case Nil
  show ?case by simp
next
  case (Cons a ts)
  obtain i out where a: "a = (i, out)" by (cases a)
  obtain r t1 lg1 where c: "compress_pdf (sim_os tool) i out q (t, lg) = (r, (t1, lg1))"
    by (metis surj_pair)
  from compress_pdf_log [of tool i out q t lg] c obtain x where x: "lg1 = lg @ x" by auto
  from Cons.IH [of t1 lg1] obtain y where
    "snd (snd (run_tasks (sim_os tool) q ts (t1, lg1))) = lg1 @ y" ..
  with a c x show ?case by (auto split: prod.splits)
qed

lemma find_all_pdfs_log:
  "snd (find_all_pdfs (sim_os tool) i (t, lg)) = (t, lg @ [Walk i])"
  by (simp add: find_all_pdfs_def sim_os_def)

lemma process_all_log:
  "\<exists>rest. snd (snd (snd (snd (process_all (sim_os tool) sched i out q st (t, lg))))) = lg @ rest"
proof -
  obtain files where f: "find_all_pdfs (sim_os tool) i (t, lg) = (files, (t, lg @ [Walk i]))"
    using find_all_pdfs_log [of tool i t lg] by (metis prod.collapse)
  show ?thesis
  proof (cases "plan_tasks i out files")
    case (Inl x)
    with f show ?thesis by (simp add: process_all_def)
  next
    case (Inr tasks)
    obtain rs t2 lg2 where
      r: "run_tasks (sim_os tool) q (sched tasks) (t, lg @ [Walk i]) = (rs, (t2, lg2))"
      by (metis surj_pair)
    from run_tasks_log [of tool q "sched tasks" t "lg @ [Walk i]"] r
    obtain x where "lg2 = (lg @ [Walk i]) @ x" by auto
    with f Inr r show ?thesis
      by (simp add: process_all_def Let_def split: prod.splits option.splits sum.splits)
  qed
qed

lemma prompt_directory_log:
  "\<exists>more. snd (snd (snd (snd (prompt_directory (sim_os tool) lines (t, lg))))) = lg @ more"
proof (induction lines arbitrary: lg)
  case Nil
  show ?case by simp
next
  case (Cons l lines)
  let ?p = "strip (strip_chars {CHR 0x22, CHR '' ''} l)"
  obtain b where i: "isdir_op (sim_os tool) ?p (t, lg) = (b, (t, lg @ [Isdir ?p]))"
    by (simp add: sim_os_def)
  from Cons.IH [of "lg @ [Isdir ?p]"] obtain x where
    "snd (snd (snd (snd (prompt_directory (sim_os tool) lines (t, lg @ [Isdir ?p]))))) =
       (lg @ [Isdir ?p]) @ x" ..
  with i show ?case
    by (cases b) (auto simp: Let_def split: prod.splits)
qed

lemma check_ghostscript_log:
  "\<exists>t1. snd (snd (check_ghostscript (sim_os tool) (t, lg))) =
          (t1, lg @ [Run [''gswin64c'', ''--version'']])"
  by (auto simp: check_ghostscript_def subprocess_run_def sim_os_def
      split: prod.splits sum.splits exn.splits if_splits)

lemma main_log:
  "\<exists>rest. snd (snd (snd (snd (snd (main (sim_os tool) sched stdin (t, lg)))))) =
     lg @ Run [''gswin64c'', ''--version''] # rest"
proof -
  let ?probe = "[''gswin64c'', ''--version'']"
  obtain e0 out0 t1 where
    g: "check_ghostscript (sim_os tool) (t, lg) = (e0, out0, (t1, lg @ [Run ?probe]))"
    using check_ghostscript_log [of tool t lg] by (metis prod.collapse)
  obtain r1 ls1 in1 t2 lg2 where
    p1: "prompt_directory (sim_os tool) stdin (t1, lg @ [Run ?probe]) = (r1, ls1, in1, (t2, lg2))"
    by (metis surj_pair)
  from prompt_directory_log [of tool stdin t1 "lg @ [Run ?probe]"] p1
  obtain x where x: "lg2 = (lg @ [Run ?probe]) @ x" by auto
  obtain r2 ls2 in2 t3 lg3 where
    p2: "prompt_directory (sim_os tool) in1 (t2, lg2) = (r2, ls2, in2, (t3, lg3))"
    by (metis surj_pair)
  from prompt_directory_log [of tool in1 t2 lg2] p2
  obtain y where y: "lg3 = lg2 @ y" by auto
  have pa: "\<exists>z. snd (snd (snd (snd (process_all (sim_os tool) sched i out q Stats_init (t3, lg3)))))
      = lg3 @ z" for i out q
    by (rule process_all_log)
  show ?thesis
  proof (cases e0)
    case (Exit n)
    with g show ?thesis by (simp add: main_def)
  next
    case (Raised e)
    with g show ?thesis by (simp add: main_def)
  next
    case Returned
    show ?thesis
    proof (cases r1)
      case (Inl e)
      with g Returned p1 x show ?thesis by (simp add: main_def)
    next
      case i: (Inr input_root)
      show ?thesis
      proof (cases r2)
        case (Inl e)
        with g Returned p1 i p2 x y show ?thesis by (simp add: main_def)
      next
        case o: (Inr output_root)
        show ?thesis
        proof (cases in2)
          case Nil
          with g Returned p1 i p2 o x y show ?thesis by (simp add: main_def)
        next
          case (Cons l in3)
          from pa [of input_root output_root "prompt_quality l"] obtain z where
            "snd (snd (snd (snd (process_all (sim_os tool) sched input_root output_root
               (prompt_quality l) Stats_init (t3, lg3))))) = lg3 @ z" ..
          with g Returned p1 i p2 o Cons x y show ?thesis
            by (auto simp: main_def split: prod.splits option.splits)
        qed
      qed
    qed
  qed
qed

lemma main_probe_failure:
  assumes "run_op os [''gswin64c'', ''--version''] w = (r, w1)"
    and "r = Inl FileNotFoundError \<or> (\<exists>rc out err. r = Inr (rc, out, err) \<and> rc \<noteq> 0)"
  shows "\<exists>msg. (msg = GsNotFound \<or> (\<exists>s. msg = GsError s)) \<and>
           main os sched stdin w = (Exit 1, [Banner, msg], stdin, Stats_init, w1)"
  using assms by (auto simp: main_def check_ghostscript_def subprocess_run_def)

text \<open>
  Claim C9. The probe \<^verbatim>\<open>gswin64c --version\<close> comes before everything else: in the
  simulation, where every call is logged, it is the first call the program makes. When
  the tool is missing or the probe returns another code than zero, the program ends with
  \<^verbatim>\<open>exit(1)\<close> after one message: no line of input is read, the \<^verbatim>\<open>Stats\<close> are untouched and
  the world is the one the probe left, for every operating system, so no directory was
  listed and no file was processed.
\<close>

theorem probe_first_and_fatal:
  "(\<exists>rest. snd (snd (snd (snd (snd (main (sim_os tool) sched stdin (t, lg)))))) =
      lg @ Run [''gswin64c'', ''--version''] # rest) \<and>
   (run_op os [''gswin64c'', ''--version''] w = (r, w1) \<and>
    (r = Inl FileNotFoundError \<or> (\<exists>rc out err. r = Inr (rc, out, err) \<and> rc \<noteq> 0)) \<longrightarrow>
      (\<exists>msg. (msg = GsNotFound \<or> (\<exists>s. msg = GsError s)) \<and>
         main os sched' stdin' w = (Exit 1, [Banner, msg], stdin', Stats_init, w1)))"
  using main_log [of tool sched stdin t lg] main_probe_failure [of os w r w1 sched' stdin']
  by blast

text \<open>
  On a machine without the tool the only call made is the probe.
\<close>

theorem probe_first_and_fatal_witness:
  "\<exists>msg. (msg = GsNotFound \<or> (\<exists>s. msg = GsError s)) \<and>
     main (sim_os no_tool) (\<lambda>ts. ts) [''in'', ''out'', ''2''] (scenario_fs, []) =
       (Exit 1, [Banner, msg], [''in'', ''out'', ''2''], Stats_init,
        (scenario_fs, [Run [''gswin64c'', ''--version'']]))"
proof -
  have r: "run_op (sim_os no_tool) [''gswin64c'', ''--version''] (scenario_fs, []) =
      (Inl FileNotFoundError, (scenario_fs, [Run [''gswin64c'', ''--version'']]))"
    by (simp add: sim_os_def no_tool_def)
  from probe_first_and_fatal [where os = "sim_os no_tool" and w = "(scenario_fs, [])"
      and r = "Inl FileNotFoundError"
      and ?w1.0 = "(scenario_fs, [Run [''gswin64c'', ''--version'']])"
      and sched' = "\<lambda>ts. ts" and stdin' = "[''in'', ''out'', ''2'']"] r
  show ?thesis by blast
qed

end
